theory Spec2Isabelle
  imports Main
begin

section \<open>Data model: nodes, pointers, the object store\<close>

text \<open>
  The library manipulates \<^verbatim>\<open>INode\<close> objects through raw pointers
  (\<^verbatim>\<open>INode*\<close>). A pointer is an optional address, \<open>None\<close> being
  \<^verbatim>\<open>nullptr\<close>; the store maps the addresses of the live (allocated, not yet
  deleted) nodes to their contents. Reading through a null pointer or through a pointer
  whose node has been deleted is undefined behaviour in C++; the model makes it the explicit
  error \<open>undefined_behaviour\<close>.
\<close>

type_synonym addr = nat
type_synonym ptr = "addr option"

text \<open>\<^verbatim>\<open>IRunnable::RunnableState\<close> (runnable.h).\<close>

datatype RunnableState = Ready | Executing | Completed

text \<open>\<^verbatim>\<open>Task::TaskState\<close> (task.h), the target of the cast in \<^verbatim>\<open>Task::state\<close>.\<close>

datatype TaskState = READY | EXECUTING | COMPLETED

fun to_TaskState :: "RunnableState \<Rightarrow> TaskState" where
  "to_TaskState Ready = READY"
| "to_TaskState Executing = EXECUTING"
| "to_TaskState Completed = COMPLETED"

text \<open>\<^verbatim>\<open>TraceNodeState\<close> (threadgraph.h); its value-initialised value is the first one.\<close>

datatype TraceNodeState = TraceReady | TracePending | TraceCompleted

text \<open>
  The exceptions of the library are the standard ones raised by the macros of athread.h
  (\<^verbatim>\<open>AT_INVALID_ARGUMENT\<close>, \<^verbatim>\<open>AT_RUNTIME_ERROR\<close>, \<^verbatim>\<open>AT_ERROR\<close>), with the
  message of the build without \<^verbatim>\<open>DEBUG\<close>. A payload may throw any of them, or an object
  that does not derive from \<^verbatim>\<open>std::exception\<close>.
\<close>

datatype error =
    invalid_argument string
  | runtime_error string
  | std_exception string
  | non_std_exception
  | undefined_behaviour

text \<open>
  \<^verbatim>\<open>catch (const std::exception& e)\<close> and \<^verbatim>\<open>e.what()\<close>: the message of an exception
  that derives from \<^verbatim>\<open>std::exception\<close>, nothing for any other thrown object.
\<close>

fun what :: "error \<Rightarrow> string option" where
  "what (invalid_argument m) = Some m"
| "what (runtime_error m) = Some m"
| "what (std_exception m) = Some m"
| "what non_std_exception = None"
| "what undefined_behaviour = None"

text \<open>An \<^verbatim>\<open>INode\<close>: the atomic state of \<^verbatim>\<open>IRunnable\<close> and the two edge vectors (node.h).\<close>

record INode =
  state :: RunnableState
  predecessors :: "ptr list"
  successors :: "ptr list"

type_synonym heap = "addr \<Rightarrow> INode option"

text \<open>The constructor \<^verbatim>\<open>IRunnable()\<close> sets the state to Ready; both vectors start empty.\<close>

definition new_INode :: INode where
  "new_INode = \<lparr>state = Ready, predecessors = [], successors = []\<rparr>"

text \<open>Dereferencing a pointer.\<close>

definition deref :: "heap \<Rightarrow> ptr \<Rightarrow> error + INode" where
  "deref h p =
     (case p of
        None \<Rightarrow> Inl undefined_behaviour
      | Some a \<Rightarrow> (case h a of None \<Rightarrow> Inl undefined_behaviour | Some n \<Rightarrow> Inr n))"

section \<open>Task handles (task.h, task.cpp)\<close>

text \<open>A \<^verbatim>\<open>Task\<close> holds the raw pointer \<^verbatim>\<open>_node\<close>; \<^verbatim>\<open>Task()\<close> sets it to null.\<close>

datatype Task = Task (node: ptr)

definition Task_default :: Task where
  "Task_default = Task None"

definition CYCLE :: error where
  "CYCLE = runtime_error ''Circular dependency detected''"

text \<open>
  \<^verbatim>\<open>Task::depend(const Task& t)\<close>. The two argument checks and the back-edge check come
  first and throw before anything is written; the result pairs the outcome with the store
  after the call. \<^verbatim>\<open>this->_node\<close> is not compared with null: it is read through in the
  first \<^verbatim>\<open>std::find\<close> over \<^verbatim>\<open>_node->_predecessors\<close>.
\<close>

definition depend :: "Task \<Rightarrow> Task \<Rightarrow> heap \<Rightarrow> (error + Task) \<times> heap" where
  "depend this t h =
     (if node t = None then (Inl (invalid_argument ''Task is not valid''), h)
      else if node t = node this then (Inl (invalid_argument ''Cannot set relation to itself''), h)
      else
        (case deref h (node t) of
           Inl e \<Rightarrow> (Inl e, h)
         | Inr tn \<Rightarrow>
             if node this \<in> set (predecessors tn) then (Inl CYCLE, h)
             else
               (case node this of
                  None \<Rightarrow> (Inl undefined_behaviour, h)
                | Some a \<Rightarrow>
                    (case h a of
                       None \<Rightarrow> (Inl undefined_behaviour, h)
                     | Some n \<Rightarrow>
                         let h1 = (if node t \<in> set (predecessors n) then h
                                   else h(a \<mapsto> n\<lparr>predecessors := predecessors n @ [node t]\<rparr>))
                         in
                           (case node t of
                              None \<Rightarrow> (Inl undefined_behaviour, h1)
                            | Some b \<Rightarrow>
                                (case h1 b of
                                   None \<Rightarrow> (Inl undefined_behaviour, h1)
                                 | Some tn1 \<Rightarrow>
                                     (Inr this,
                                      if node this \<in> set (successors tn1) then h1
                                      else h1(b \<mapsto> tn1\<lparr>successors := successors tn1 @ [node this]\<rparr>))))))))"

text \<open>\<^verbatim>\<open>Task::precede(const Task& t)\<close>: a copy of \<open>t\<close> depends on \<open>this\<close>; returns \<open>this\<close>.\<close>

definition precede :: "Task \<Rightarrow> Task \<Rightarrow> heap \<Rightarrow> (error + Task) \<times> heap" where
  "precede this t h =
     (case depend t this h of
        (Inl e, h') \<Rightarrow> (Inl e, h')
      | (Inr _, h') \<Rightarrow> (Inr this, h'))"

text \<open>
  \<^verbatim>\<open>Task::erase_depend\<close> and \<^verbatim>\<open>Task::erase_precede\<close>: the erase-remove idiom is
  \<open>removeAll\<close>; both are guarded by \<^verbatim>\<open>_node && other._node\<close>. The second vector is read
  after the first has been written (the two handles may name one node).
\<close>

definition erase_depend :: "Task \<Rightarrow> Task \<Rightarrow> heap \<Rightarrow> (error + Task) \<times> heap" where
  "erase_depend this other h =
     (case (node this, node other) of
        (Some a, Some b) \<Rightarrow>
          (case h a of
             None \<Rightarrow> (Inl undefined_behaviour, h)
           | Some n \<Rightarrow>
               let h1 = h(a \<mapsto> n\<lparr>predecessors := removeAll (Some b) (predecessors n)\<rparr>)
               in (case h1 b of
                     None \<Rightarrow> (Inl undefined_behaviour, h1)
                   | Some m \<Rightarrow>
                       (Inr this, h1(b \<mapsto> m\<lparr>successors := removeAll (Some a) (successors m)\<rparr>))))
      | _ \<Rightarrow> (Inr this, h))"

definition erase_precede :: "Task \<Rightarrow> Task \<Rightarrow> heap \<Rightarrow> (error + Task) \<times> heap" where
  "erase_precede this other h =
     (case (node this, node other) of
        (Some a, Some b) \<Rightarrow>
          (case h a of
             None \<Rightarrow> (Inl undefined_behaviour, h)
           | Some n \<Rightarrow>
               let h1 = h(a \<mapsto> n\<lparr>successors := removeAll (Some b) (successors n)\<rparr>)
               in (case h1 b of
                     None \<Rightarrow> (Inl undefined_behaviour, h1)
                   | Some m \<Rightarrow>
                       (Inr this, h1(b \<mapsto> m\<lparr>predecessors := removeAll (Some a) (predecessors m)\<rparr>))))
      | _ \<Rightarrow> (Inr this, h))"

text \<open>
  The accessors of task.h. \<^verbatim>\<open>state\<close>, \<^verbatim>\<open>predecessors_size\<close> and \<^verbatim>\<open>successors_size\<close>
  read through \<^verbatim>\<open>_node\<close> with no test; \<^verbatim>\<open>reset_state\<close>, \<^verbatim>\<open>empty\<close> (here \<open>Task_empty\<close>) and the four
  iterator accessors test \<^verbatim>\<open>_node\<close> first.
\<close>

definition Task_state :: "heap \<Rightarrow> Task \<Rightarrow> error + TaskState" where
  "Task_state h t =
     (case deref h (node t) of Inl e \<Rightarrow> Inl e | Inr n \<Rightarrow> Inr (to_TaskState (state n)))"

definition predecessors_size :: "heap \<Rightarrow> Task \<Rightarrow> error + nat" where
  "predecessors_size h t =
     (case deref h (node t) of Inl e \<Rightarrow> Inl e | Inr n \<Rightarrow> Inr (length (predecessors n)))"

definition successors_size :: "heap \<Rightarrow> Task \<Rightarrow> error + nat" where
  "successors_size h t =
     (case deref h (node t) of Inl e \<Rightarrow> Inl e | Inr n \<Rightarrow> Inr (length (successors n)))"

definition reset_state :: "Task \<Rightarrow> heap \<Rightarrow> error + heap" where
  "reset_state t h =
     (case node t of
        None \<Rightarrow> Inr h
      | Some a \<Rightarrow>
          (case h a of
             None \<Rightarrow> Inl undefined_behaviour
           | Some n \<Rightarrow> Inr (h(a \<mapsto> n\<lparr>state := Ready\<rparr>))))"

definition Task_empty :: "Task \<Rightarrow> bool" where
  "Task_empty t = (node t = None)"

text \<open>
  A \<^verbatim>\<open>TaskIterator\<close> wraps a vector iterator: a position in an edge vector, or the
  value-initialised iterator \<^verbatim>\<open>TaskIterator({})\<close> that belongs to no vector.
\<close>

datatype TaskIterator = Singular | Position "ptr list" nat

definition begin_predecessors :: "heap \<Rightarrow> Task \<Rightarrow> error + TaskIterator" where
  "begin_predecessors h t =
     (case node t of
        None \<Rightarrow> Inr Singular
      | Some a \<Rightarrow>
          (case h a of
             None \<Rightarrow> Inl undefined_behaviour
           | Some n \<Rightarrow> Inr (Position (predecessors n) 0)))"

definition end_predecessors :: "heap \<Rightarrow> Task \<Rightarrow> error + TaskIterator" where
  "end_predecessors h t =
     (case node t of
        None \<Rightarrow> Inr Singular
      | Some a \<Rightarrow>
          (case h a of
             None \<Rightarrow> Inl undefined_behaviour
           | Some n \<Rightarrow> Inr (Position (predecessors n) (length (predecessors n)))))"

definition begin_successors :: "heap \<Rightarrow> Task \<Rightarrow> error + TaskIterator" where
  "begin_successors h t =
     (case node t of
        None \<Rightarrow> Inr Singular
      | Some a \<Rightarrow>
          (case h a of
             None \<Rightarrow> Inl undefined_behaviour
           | Some n \<Rightarrow> Inr (Position (successors n) 0)))"

definition end_successors :: "heap \<Rightarrow> Task \<Rightarrow> error + TaskIterator" where
  "end_successors h t =
     (case node t of
        None \<Rightarrow> Inr Singular
      | Some a \<Rightarrow>
          (case h a of
             None \<Rightarrow> Inl undefined_behaviour
           | Some n \<Rightarrow> Inr (Position (successors n) (length (successors n)))))"

section \<open>The graph (threadgraph.h, threadgraph.cpp)\<close>

text \<open>
  What a worker's one-shot completion handle holds once the worker has ended: a value
  (\<^verbatim>\<open>_done.set_value()\<close>) or the captured exception (\<^verbatim>\<open>_done.set_exception\<close>).
\<close>

datatype worker_outcome = Done | Faulted error

text \<open>
  A \<^verbatim>\<open>WorkerContext\<close> as \<^verbatim>\<open>wait\<close> sees it: \<open>None\<close> is a null context or a future that
  is not valid (both are skipped), otherwise what \<^verbatim>\<open>future.get()\<close> yields.
\<close>

type_synonym WorkerContext = "worker_outcome option"

record ThreadGraph =
  thread_count :: nat
  enable_optimized_threads :: bool
  termination_flag :: bool
  executing_flag :: bool
  task_pool :: "ptr list"
  ready_tasks_cache :: "ptr list"
  worker_contexts :: "WorkerContext list"

definition new_ThreadGraph :: "nat \<Rightarrow> bool \<Rightarrow> ThreadGraph" where
  "new_ThreadGraph n opt =
     \<lparr>thread_count = n, enable_optimized_threads = opt, termination_flag = False,
      executing_flag = False, task_pool = [], ready_tasks_cache = [], worker_contexts = []\<rparr>"

definition executing :: "ThreadGraph \<Rightarrow> bool" where
  "executing g = executing_flag g"

definition reset :: "ThreadGraph \<Rightarrow> ThreadGraph" where
  "reset g = g\<lparr>executing_flag := False, termination_flag := False,
               ready_tasks_cache := [], worker_contexts := []\<rparr>"

text \<open>\<^verbatim>\<open>ThreadGraph::push(INode* node)\<close>, the four checks in the order of the source.\<close>

definition push :: "heap \<Rightarrow> ThreadGraph \<Rightarrow> ptr \<Rightarrow> (error + Task) \<times> ThreadGraph" where
  "push h g nd =
     (if nd = None then
        (Inl (invalid_argument ''Node is null. A valid node must be provided.''), g)
      else if executing g then
        (Inl (runtime_error ''Cannot push tasks while executing.''), g)
      else
        (case deref h nd of
           Inl e \<Rightarrow> (Inl e, g)
         | Inr n \<Rightarrow>
             if state n = Executing \<or> state n = Completed then
               (Inl (invalid_argument
                  ''Node is already in EXECUTING or COMPLETE state. A valid node must be provided.''), g)
             else if nd \<in> set (task_pool g) then
               (Inl (invalid_argument
                  ''Node is already in the graph. A valid node must be provided.''), g)
             else (Inr (Task nd), g\<lparr>task_pool := task_pool g @ [nd]\<rparr>)))"

text \<open>What the specification calls failing with INVALID_ARGUMENT, RUNTIME_ERROR.\<close>

fun is_invalid_argument :: "error + 'a \<Rightarrow> bool" where
  "is_invalid_argument (Inl (invalid_argument m)) = True"
| "is_invalid_argument _ = False"

fun is_runtime_error :: "error + 'a \<Rightarrow> bool" where
  "is_runtime_error (Inl (runtime_error m)) = True"
| "is_runtime_error _ = False"

text \<open>
  \<^verbatim>\<open>ThreadGraph::erase(Task& t)\<close>. The first loop visits the predecessors of the node
  and removes the node from the successors of each; the second visits its successors (read
  after the first loop) and removes it from the predecessors of each. Then the first
  occurrence in the task pool is erased, the node is deleted and the handle is nulled.
\<close>

fun unlink_from_successors :: "ptr \<Rightarrow> ptr list \<Rightarrow> heap \<Rightarrow> error + heap" where
  "unlink_from_successors tn [] h = Inr h"
| "unlink_from_successors tn (p # ps) h =
     (case p of
        None \<Rightarrow> Inl undefined_behaviour
      | Some a \<Rightarrow>
          (case h a of
             None \<Rightarrow> Inl undefined_behaviour
           | Some n \<Rightarrow>
               unlink_from_successors tn ps
                 (h(a \<mapsto> n\<lparr>successors := removeAll tn (successors n)\<rparr>))))"

fun unlink_from_predecessors :: "ptr \<Rightarrow> ptr list \<Rightarrow> heap \<Rightarrow> error + heap" where
  "unlink_from_predecessors tn [] h = Inr h"
| "unlink_from_predecessors tn (s # ss) h =
     (case s of
        None \<Rightarrow> Inl undefined_behaviour
      | Some a \<Rightarrow>
          (case h a of
             None \<Rightarrow> Inl undefined_behaviour
           | Some n \<Rightarrow>
               unlink_from_predecessors tn ss
                 (h(a \<mapsto> n\<lparr>predecessors := removeAll tn (predecessors n)\<rparr>))))"

definition erase ::
  "heap \<Rightarrow> ThreadGraph \<Rightarrow> Task \<Rightarrow> (error + bool) \<times> heap \<times> ThreadGraph \<times> Task" where
  "erase h g t =
     (case node t of
        None \<Rightarrow> (Inr False, h, g, t)
      | Some a \<Rightarrow>
          if executing g then
            (Inl (runtime_error ''Cannot erase tasks while executing.''), h, g, t)
          else if Some a \<notin> set (task_pool g) then (Inr False, h, g, t)
          else
            (case h a of
               None \<Rightarrow> (Inl undefined_behaviour, h, g, t)
             | Some n \<Rightarrow>
                 (case unlink_from_successors (Some a) (predecessors n) h of
                    Inl e \<Rightarrow> (Inl e, h, g, t)
                  | Inr h1 \<Rightarrow>
                      (case h1 a of
                         None \<Rightarrow> (Inl undefined_behaviour, h1, g, t)
                       | Some n1 \<Rightarrow>
                           (case unlink_from_predecessors (Some a) (successors n1) h1 of
                              Inl e \<Rightarrow> (Inl e, h1, g, t)
                            | Inr h2 \<Rightarrow>
                                (Inr True, h2(a := None),
                                 g\<lparr>task_pool := remove1 (Some a) (task_pool g)\<rparr>,
                                 Task None))))))"

text \<open>
  \<^verbatim>\<open>ThreadGraph::wait()\<close>. The first loop gets every valid future in order; a future
  that has been read by \<^verbatim>\<open>future.get()\<close> is no longer valid afterwards, whether it
  yielded the value or threw. An exception that derives from \<^verbatim>\<open>std::exception\<close> is
  caught and its message and a newline are appended; any other exception leaves the loop
  and \<^verbatim>\<open>wait\<close> at once, before the joins and before \<^verbatim>\<open>reset\<close>: the contexts read
  so far (the throwing one included) are left with invalid futures, the others and the two
  flags are as they were. \<open>collect_messages\<close> returns the outcome of the loop and the
  contexts after it.
\<close>

fun collect_messages ::
  "WorkerContext list \<Rightarrow> string \<Rightarrow> (error + string) \<times> WorkerContext list" where
  "collect_messages [] msg = (Inr msg, [])"
| "collect_messages (None # cs) msg =
     (case collect_messages cs msg of (r, cs') \<Rightarrow> (r, None # cs'))"
| "collect_messages (Some Done # cs) msg =
     (case collect_messages cs msg of (r, cs') \<Rightarrow> (r, None # cs'))"
| "collect_messages (Some (Faulted e) # cs) msg =
     (case what e of
        Some w \<Rightarrow>
          (case collect_messages cs (msg @ w @ [CHR 0x0A]) of (r, cs') \<Rightarrow> (r, None # cs'))
      | None \<Rightarrow> (Inl e, None # cs))"

definition wait :: "ThreadGraph \<Rightarrow> (error + unit) \<times> ThreadGraph" where
  "wait g =
     (case collect_messages (worker_contexts g) [] of
        (Inl e, cs') \<Rightarrow> (Inl e, g\<lparr>worker_contexts := cs'\<rparr>)
      | (Inr msg, cs') \<Rightarrow>
          (if msg \<noteq> [] then
             Inl (runtime_error (''Exception occurred in worker thread: '' @ msg))
           else Inr (),
           reset (g\<lparr>worker_contexts := cs'\<rparr>)))"

section \<open>The trace algorithm\<close>

type_synonym trace_result = "TraceNodeState \<times> ptr"

text \<open>
  \<^verbatim>\<open>ThreadGraph::trace_ready_depend\<close> recurses along predecessor edges and need not
  return on a cyclic graph, so the model carries fuel: \<open>None\<close> is a call that has not
  returned within that recursion budget. \<open>scan_predecessors\<close> is the \<^verbatim>\<open>for\<close> loop over
  \<^verbatim>\<open>entryNode->_predecessors\<close>; its last argument is the local \<^verbatim>\<open>exe\<close>, which starts
  value-initialised; \<open>pre\<close> is the loop variable \<^verbatim>\<open>precede\<close>.
\<close>

fun trace_ready_depend :: "nat \<Rightarrow> heap \<Rightarrow> ptr \<Rightarrow> ptr set \<Rightarrow> (error + trace_result) option"
  and scan_predecessors ::
    "nat \<Rightarrow> heap \<Rightarrow> ptr set \<Rightarrow> ptr \<Rightarrow> ptr list \<Rightarrow> trace_result \<Rightarrow> (error + trace_result) option"
where
  "trace_ready_depend 0 h entryNode avoids = None"
| "trace_ready_depend (Suc k) h entryNode avoids =
     (case entryNode of
        None \<Rightarrow> Some (Inl (runtime_error ''EntryNode is null. A valid entry node must be provided.''))
      | Some e \<Rightarrow>
          (case h e of
             None \<Rightarrow> Some (Inl undefined_behaviour)
           | Some n \<Rightarrow>
               if state n = Executing then Some (Inr (TracePending, entryNode))
               else if state n = Completed then Some (Inr (TraceCompleted, entryNode))
               else scan_predecessors k h avoids entryNode (predecessors n) (TraceReady, None)))"
| "scan_predecessors k h avoids entryNode [] exe =
     (if snd exe \<noteq> None then Some (Inr exe) else Some (Inr (TraceReady, entryNode)))"
| "scan_predecessors k h avoids entryNode (pre # rest) exe =
     (case pre of
        None \<Rightarrow> scan_predecessors k h avoids entryNode rest exe
      | Some a \<Rightarrow>
          if pre \<in> avoids then scan_predecessors k h avoids entryNode rest exe
          else
            (case h a of
               None \<Rightarrow> Some (Inl undefined_behaviour)
             | Some pn \<Rightarrow>
                 if state pn = Ready then
                   (case trace_ready_depend k h pre avoids of
                      None \<Rightarrow> None
                    | Some (Inl err) \<Rightarrow> Some (Inl err)
                    | Some (Inr branch_state) \<Rightarrow>
                        if fst branch_state = TraceReady then Some (Inr branch_state)
                        else if fst branch_state = TracePending then
                          scan_predecessors k h avoids entryNode rest branch_state
                        else scan_predecessors k h avoids entryNode rest exe)
                 else if state pn = Executing then
                   scan_predecessors k h avoids entryNode rest (TracePending, pre)
                 else scan_predecessors k h avoids entryNode rest exe))"

text \<open>The loop over \<^verbatim>\<open>_task_pool\<close> in the entry variant of \<^verbatim>\<open>trace_ready_node\<close>.\<close>

fun first_executing :: "heap \<Rightarrow> ptr list \<Rightarrow> error + ptr option" where
  "first_executing h [] = Inr None"
| "first_executing h (task # rest) =
     (case deref h task of
        Inl e \<Rightarrow> Inl e
      | Inr n \<Rightarrow> if state n = Executing then Inr (Some task) else first_executing h rest)"

text \<open>
  The loop over \<^verbatim>\<open>entryNode->_successors\<close> when the entry node is executing: \<open>Some r\<close>
  is the early \<^verbatim>\<open>return\<close>, \<open>None\<close> the end of the loop.
\<close>

fun scan_successors :: "nat \<Rightarrow> heap \<Rightarrow> ptr list \<Rightarrow> (error + trace_result option) option" where
  "scan_successors k h [] = Some (Inr None)"
| "scan_successors k h (s # rest) =
     (case deref h s of
        Inl e \<Rightarrow> Some (Inl e)
      | Inr sn \<Rightarrow>
          if state sn = Ready then
            (case trace_ready_depend k h s {} of
               None \<Rightarrow> None
             | Some (Inl e) \<Rightarrow> Some (Inl e)
             | Some (Inr r) \<Rightarrow>
                 if fst r = TraceReady then Some (Inr (Some r)) else scan_successors k h rest)
          else scan_successors k h rest)"

text \<open>
  The same loop when the entry node is completed, with the local \<^verbatim>\<open>delay\<close>: \<open>Inl r\<close> is
  the early \<^verbatim>\<open>return\<close>, \<open>Inr delay\<close> the value of \<^verbatim>\<open>delay\<close> at the end of the loop.
\<close>

fun scan_successors_delay ::
  "nat \<Rightarrow> heap \<Rightarrow> ptr list \<Rightarrow> trace_result \<Rightarrow> (error + (trace_result + trace_result)) option" where
  "scan_successors_delay k h [] delay = Some (Inr (Inr delay))"
| "scan_successors_delay k h (s # rest) delay =
     (case deref h s of
        Inl e \<Rightarrow> Some (Inl e)
      | Inr sn \<Rightarrow>
          if state sn = Ready then
            (case trace_ready_depend k h s {} of
               None \<Rightarrow> None
             | Some (Inl e) \<Rightarrow> Some (Inl e)
             | Some (Inr r) \<Rightarrow>
                 if fst r = TraceReady then Some (Inr (Inl r))
                 else if fst r = TracePending then scan_successors_delay k h rest r
                 else scan_successors_delay k h rest delay)
          else scan_successors_delay k h rest delay)"

text \<open>
  \<^verbatim>\<open>ThreadGraph::trace_ready_node\<close>. With a null hint it is the entry variant; with a
  hint it dispatches on the state of the hint and calls the entry variant at most once.
\<close>

definition trace_ready_node_entry ::
  "nat \<Rightarrow> heap \<Rightarrow> ThreadGraph \<Rightarrow> (error + trace_result) option" where
  "trace_ready_node_entry k h g =
     (case ready_tasks_cache g of
        c # cs \<Rightarrow> trace_ready_depend k h c {}
      | [] \<Rightarrow>
          (case first_executing h (task_pool g) of
             Inl e \<Rightarrow> Some (Inl e)
           | Inr (Some task) \<Rightarrow> Some (Inr (TracePending, task))
           | Inr None \<Rightarrow> Some (Inr (TraceCompleted, None))))"

definition trace_ready_node ::
  "nat \<Rightarrow> heap \<Rightarrow> ThreadGraph \<Rightarrow> ptr \<Rightarrow> (error + trace_result) option" where
  "trace_ready_node k h g entryNode =
     (case entryNode of
        None \<Rightarrow> trace_ready_node_entry k h g
      | Some e \<Rightarrow>
          (case h e of
             None \<Rightarrow> Some (Inl undefined_behaviour)
           | Some en \<Rightarrow>
               if state en = Executing then
                 (case scan_successors k h (successors en) of
                    None \<Rightarrow> None
                  | Some (Inl err) \<Rightarrow> Some (Inl err)
                  | Some (Inr (Some r)) \<Rightarrow> Some (Inr r)
                  | Some (Inr None) \<Rightarrow>
                      (case trace_ready_node_entry k h g of
                         None \<Rightarrow> None
                       | Some (Inl err) \<Rightarrow> Some (Inl err)
                       | Some (Inr next_ready_task) \<Rightarrow>
                           if fst next_ready_task = TraceReady then Some (Inr next_ready_task)
                           else Some (Inr (TracePending, entryNode))))
               else if state en = Ready then
                 (case trace_ready_depend k h entryNode {} of
                    None \<Rightarrow> None
                  | Some (Inl err) \<Rightarrow> Some (Inl err)
                  | Some (Inr ready_depend) \<Rightarrow>
                      if fst ready_depend = TraceReady then Some (Inr ready_depend)
                      else if fst ready_depend = TracePending then
                        (case trace_ready_node_entry k h g of
                           None \<Rightarrow> None
                         | Some (Inl err) \<Rightarrow> Some (Inl err)
                         | Some (Inr next_ready_task) \<Rightarrow>
                             if fst next_ready_task = TraceReady then Some (Inr next_ready_task)
                             else Some (Inr ready_depend))
                      else Some (Inr (TraceCompleted, None)))
               else
                 (case scan_successors_delay k h (successors en) (TracePending, None) of
                    None \<Rightarrow> None
                  | Some (Inl err) \<Rightarrow> Some (Inl err)
                  | Some (Inr (Inl r)) \<Rightarrow> Some (Inr r)
                  | Some (Inr (Inr delay)) \<Rightarrow>
                      (case trace_ready_node_entry k h g of
                         None \<Rightarrow> None
                       | Some (Inl err) \<Rightarrow> Some (Inl err)
                       | Some (Inr readynode) \<Rightarrow>
                           if fst readynode = TraceReady then Some (Inr readynode)
                           else if snd delay \<noteq> None then Some (Inr delay)
                           else if fst readynode = TracePending then Some (Inr readynode)
                           else Some (Inr (TraceCompleted, None))))))"

section \<open>The graph worker (worker.cpp)\<close>

definition remove_ready_cache :: "ThreadGraph \<Rightarrow> ptr \<Rightarrow> ThreadGraph" where
  "remove_ready_cache g n = g\<lparr>ready_tasks_cache := remove1 n (ready_tasks_cache g)\<rparr>"

text \<open>
  The block of \<^verbatim>\<open>GraphWorker::process_tasks\<close> that runs under \<^verbatim>\<open>_tasks_mutex\<close>:
  trace from the hint (the node of the previous iteration) and, on verdict Ready, mark the
  node executing and take it out of the ready cache. The result carries the new value of
  \<^verbatim>\<open>nextNode\<close>.
\<close>

definition process_tasks_locked ::
  "nat \<Rightarrow> heap \<Rightarrow> ThreadGraph \<Rightarrow> ptr \<Rightarrow> (error + heap \<times> ThreadGraph \<times> trace_result) option" where
  "process_tasks_locked k h g hint =
     (case trace_ready_node k h g hint of
        None \<Rightarrow> None
      | Some (Inl e) \<Rightarrow> Some (Inl e)
      | Some (Inr nextNode) \<Rightarrow>
          if fst nextNode = TraceReady then
            (case snd nextNode of
               None \<Rightarrow> Some (Inl undefined_behaviour)
             | Some a \<Rightarrow>
                 (case h a of
                    None \<Rightarrow> Some (Inl undefined_behaviour)
                  | Some n \<Rightarrow>
                      Some (Inr (h(a \<mapsto> n\<lparr>state := Executing\<rparr>),
                                 remove_ready_cache g (snd nextNode), nextNode))))
          else Some (Inr (h, g, nextNode)))"

text \<open>
  A run of the workers, as the interleaving of their steps: a worker claims a node in the
  locked block (with whatever hint it holds), a worker finds nothing to claim, or the worker
  that claimed a node returns from its payload and marks the node completed. The edge
  vectors are not written during a run. The trace records when each node starts and
  finishes.
\<close>

datatype event = Started addr | Finished addr

inductive run :: "heap \<times> ThreadGraph \<Rightarrow> event list \<Rightarrow> heap \<times> ThreadGraph \<Rightarrow> bool"
  for c0 :: "heap \<times> ThreadGraph"
where
  run_start: "run c0 [] c0"
| run_claim:
    "run c0 tr (h, g) \<Longrightarrow>
     process_tasks_locked k h g hint = Some (Inr (h', g', (TraceReady, Some a))) \<Longrightarrow>
     run c0 (tr @ [Started a]) (h', g')"
| run_idle:
    "run c0 tr (h, g) \<Longrightarrow>
     process_tasks_locked k h g hint = Some (Inr (h', g', (v, p))) \<Longrightarrow>
     v \<noteq> TraceReady \<Longrightarrow>
     run c0 tr (h', g')"
| run_complete:
    "run c0 tr (h, g) \<Longrightarrow>
     Started a \<in> set tr \<Longrightarrow>
     Finished a \<notin> set tr \<Longrightarrow>
     h a = Some n \<Longrightarrow>
     run c0 (tr @ [Finished a]) (h(a \<mapsto> n\<lparr>state := Completed\<rparr>), g)"

definition all_ready :: "heap \<Rightarrow> bool" where
  "all_ready h = (\<forall>a n. h a = Some n \<longrightarrow> state n = Ready)"

definition predecessors_completed :: "heap \<Rightarrow> INode \<Rightarrow> bool" where
  "predecessors_completed h n =
     (\<forall>p. Some p \<in> set (predecessors n) \<longrightarrow> (\<exists>pn. h p = Some pn \<and> state pn = Completed))"

section \<open>Client programs: sequences of graph-building calls\<close>

text \<open>
  A client allocates nodes (\<^verbatim>\<open>new\<close>, at an address that is not live) and calls the
  operations of the graph and of the handles. A call that throws leaves the state as it
  was when the exception was raised and the program goes on; a call that runs into undefined
  behaviour has no outcome, and neither has the program (\<open>None\<close>).
\<close>

datatype op =
    New addr
  | Push ptr
  | Depend Task Task
  | Precede Task Task
  | Erase_depend Task Task
  | Erase_precede Task Task
  | Erase Task

definition defined_outcome :: "(error + 'a) \<Rightarrow> 's \<Rightarrow> 's option" where
  "defined_outcome r s = (if r = Inl undefined_behaviour then None else Some s)"

fun apply_op :: "op \<Rightarrow> heap \<times> ThreadGraph \<Rightarrow> (heap \<times> ThreadGraph) option" where
  "apply_op (New a) (h, g) = (if h a = None then Some (h(a \<mapsto> new_INode), g) else None)"
| "apply_op (Push p) (h, g) = (case push h g p of (r, g') \<Rightarrow> defined_outcome r (h, g'))"
| "apply_op (Depend a b) (h, g) = (case depend a b h of (r, h') \<Rightarrow> defined_outcome r (h', g))"
| "apply_op (Precede a b) (h, g) = (case precede a b h of (r, h') \<Rightarrow> defined_outcome r (h', g))"
| "apply_op (Erase_depend a b) (h, g) =
     (case erase_depend a b h of (r, h') \<Rightarrow> defined_outcome r (h', g))"
| "apply_op (Erase_precede a b) (h, g) =
     (case erase_precede a b h of (r, h') \<Rightarrow> defined_outcome r (h', g))"
| "apply_op (Erase t) (h, g) = (case erase h g t of (r, h', g', t') \<Rightarrow> defined_outcome r (h', g'))"

fun run_ops :: "op list \<Rightarrow> heap \<times> ThreadGraph \<Rightarrow> (heap \<times> ThreadGraph) option" where
  "run_ops [] c = Some c"
| "run_ops (x # xs) c = (case apply_op x c of None \<Rightarrow> None | Some c' \<Rightarrow> run_ops xs c')"

text \<open>The invariants of the edge vectors and of the task pool.\<close>

definition edge_symmetry :: "heap \<Rightarrow> bool" where
  "edge_symmetry h =
     (\<forall>a b an bn. h a = Some an \<and> h b = Some bn \<longrightarrow>
        (Some b \<in> set (successors an)) = (Some a \<in> set (predecessors bn)))"

definition no_duplicates :: "heap \<Rightarrow> bool" where
  "no_duplicates h =
     (\<forall>a n. h a = Some n \<longrightarrow> distinct (predecessors n) \<and> distinct (successors n))"

definition live :: "heap \<Rightarrow> ptr \<Rightarrow> bool" where
  "live h p = (case p of None \<Rightarrow> False | Some a \<Rightarrow> h a \<noteq> None)"

definition edges_live :: "heap \<Rightarrow> bool" where
  "edges_live h =
     (\<forall>a n. h a = Some n \<longrightarrow>
        (\<forall>p \<in> set (predecessors n). live h p) \<and> (\<forall>s \<in> set (successors n). live h s))"

definition pool_ok :: "heap \<Rightarrow> ThreadGraph \<Rightarrow> bool" where
  "pool_ok h g = (distinct (task_pool g) \<and> (\<forall>p \<in> set (task_pool g). live h p))"

definition graph_inv :: "heap \<times> ThreadGraph \<Rightarrow> bool" where
  "graph_inv c =
     (edge_symmetry (fst c) \<and> no_duplicates (fst c) \<and> edges_live (fst c) \<and> pool_ok (fst c) (snd c))"

section \<open>The specification's wording of the trace subroutine and of message containment\<close>

text \<open>
  \<open>spec_trace_ready_depend\<close> follows the specification's description of
  \<^verbatim>\<open>trace-depend(E, avoid-set)\<close>, not the source: each predecessor that is neither null
  nor in the avoid-set yields a finding (the recursive result when it is Ready, Pending with
  the predecessor when it is Executing, nothing to remember when it is Completed); the answer
  is the first finding with verdict Ready, else the last finding with verdict Pending, else
  Ready with \<open>E\<close>. A finding that is no result (the recursion failed or did not return)
  ends the examination like a Ready one.
\<close>

fun is_decisive :: "(error + trace_result) option \<Rightarrow> bool" where
  "is_decisive (Some (Inr r)) = (fst r = TraceReady)"
| "is_decisive (Some (Inl e)) = True"
| "is_decisive None = True"

fun is_pending :: "(error + trace_result) option \<Rightarrow> bool" where
  "is_pending (Some (Inr r)) = (fst r = TracePending)"
| "is_pending (Some (Inl e)) = False"
| "is_pending None = False"

definition examined :: "ptr set \<Rightarrow> ptr list \<Rightarrow> ptr list" where
  "examined A ps = filter (\<lambda>P. P \<noteq> None \<and> P \<notin> A) ps"

fun spec_trace_ready_depend :: "nat \<Rightarrow> heap \<Rightarrow> ptr \<Rightarrow> ptr set \<Rightarrow> (error + trace_result) option" where
  "spec_trace_ready_depend 0 h E A = None"
| "spec_trace_ready_depend (Suc k) h E A =
     (case E of
        None \<Rightarrow> Some (Inl (runtime_error ''EntryNode is null. A valid entry node must be provided.''))
      | Some e \<Rightarrow>
          (case h e of
             None \<Rightarrow> Some (Inl undefined_behaviour)
           | Some n \<Rightarrow>
               (case state n of
                  Executing \<Rightarrow> Some (Inr (TracePending, E))
                | Completed \<Rightarrow> Some (Inr (TraceCompleted, E))
                | Ready \<Rightarrow>
                    let findings =
                      map (\<lambda>P. case deref h P of
                                 Inl err \<Rightarrow> Some (Inl err)
                               | Inr pn \<Rightarrow>
                                   (case state pn of
                                      Ready \<Rightarrow> spec_trace_ready_depend k h P A
                                    | Executing \<Rightarrow> Some (Inr (TracePending, P))
                                    | Completed \<Rightarrow> Some (Inr (TraceCompleted, P))))
                          (examined A (predecessors n))
                    in (case find is_decisive findings of
                          Some r \<Rightarrow> r
                        | None \<Rightarrow>
                            (case filter is_pending findings of
                               [] \<Rightarrow> Some (Inr (TraceReady, E))
                             | p # ps \<Rightarrow> last (p # ps))))))"

text \<open>
  The entry variant's scan of the task pool, in the specification's words: the first node of
  the pool whose state is Executing.
\<close>

definition is_executing :: "heap \<Rightarrow> ptr \<Rightarrow> bool" where
  "is_executing h p = (case deref h p of Inl e \<Rightarrow> False | Inr n \<Rightarrow> state n = Executing)"

text \<open>\<open>contains m w\<close>: the string \<open>w\<close> occurs in \<open>m\<close> (what the tests check with \<^verbatim>\<open>find\<close>).\<close>

fun contains :: "string \<Rightarrow> string \<Rightarrow> bool" where
  "contains [] w = (w = [])"
| "contains (c # cs) w = (take (length w) (c # cs) = w \<or> contains cs w)"

text \<open>The outcome is an exception with a message, and the message contains \<open>w\<close>.\<close>

definition raises_containing :: "(error + 'a) \<Rightarrow> string \<Rightarrow> bool" where
  "raises_containing r w =
     (case r of
        Inl e \<Rightarrow> (case what e of Some m \<Rightarrow> contains m w | None \<Rightarrow> False)
      | Inr x \<Rightarrow> False)"

text \<open>The messages of the workers that faulted, in the order of the worker contexts.\<close>

fun faults :: "WorkerContext list \<Rightarrow> error list" where
  "faults [] = []"
| "faults (None # cs) = faults cs"
| "faults (Some Done # cs) = faults cs"
| "faults (Some (Faulted e) # cs) = e # faults cs"

text \<open>
  What \<^verbatim>\<open>wait\<close> concatenates: the message of each captured exception that has one,
  each followed by a newline.
\<close>

fun joined_messages :: "error list \<Rightarrow> string" where
  "joined_messages [] = []"
| "joined_messages (e # es) =
     (case what e of Some w \<Rightarrow> w @ [CHR 0x0A] | None \<Rightarrow> []) @ joined_messages es"

text \<open>
  The store after a node has been erased, stated directly: the node at \<open>a\<close> is gone and
  every other node has lost \<open>a\<close> from both of its edge vectors.
\<close>

definition detach :: "addr \<Rightarrow> INode \<Rightarrow> INode" where
  "detach a n = n\<lparr>predecessors := removeAll (Some a) (predecessors n),
                  successors := removeAll (Some a) (successors n)\<rparr>"

definition erased_store :: "addr \<Rightarrow> heap \<Rightarrow> heap" where
  "erased_store a h = (\<lambda>b. if b = a then None else map_option (detach a) (h b))"

definition heap_inv :: "heap \<Rightarrow> bool" where
  "heap_inv h = (edge_symmetry h \<and> no_duplicates h \<and> edges_live h)"

text \<open>
  Two auxiliary notions that relate the loop of the source to the wording above: the finding
  the source's loop makes at one predecessor, and the answer drawn from a list of findings
  when the loop starts with a remembered result \<open>exe\<close>.
\<close>

definition finding :: "nat \<Rightarrow> heap \<Rightarrow> ptr set \<Rightarrow> ptr \<Rightarrow> (error + trace_result) option" where
  "finding k h A P =
     (case deref h P of
        Inl err \<Rightarrow> Some (Inl err)
      | Inr pn \<Rightarrow>
          (case state pn of
             Ready \<Rightarrow> trace_ready_depend k h P A
           | Executing \<Rightarrow> Some (Inr (TracePending, P))
           | Completed \<Rightarrow> Some (Inr (TraceCompleted, P))))"

definition verdict_of ::
  "ptr \<Rightarrow> trace_result \<Rightarrow> (error + trace_result) option list \<Rightarrow> (error + trace_result) option" where
  "verdict_of E exe fs =
     (case find is_decisive fs of
        Some r \<Rightarrow> r
      | None \<Rightarrow>
          (case filter is_pending fs of
             [] \<Rightarrow> (if snd exe \<noteq> None then Some (Inr exe) else Some (Inr (TraceReady, E)))
           | q # qs \<Rightarrow> last (q # qs)))"

text \<open>
  What the trace promises when it answers Ready with a node: the node is live and Ready and
  each of its predecessors that is not avoided has completed. \<open>run_inv\<close> is the invariant
  of a run: the predecessor vectors are those of the start, every completed node has its
  finish in the trace, and every start in the trace comes after the finish of each
  predecessor.
\<close>

definition completed_at :: "heap \<Rightarrow> addr \<Rightarrow> bool" where
  "completed_at h a = (case h a of None \<Rightarrow> False | Some n \<Rightarrow> state n = Completed)"

definition ready_now :: "heap \<Rightarrow> ptr set \<Rightarrow> ptr \<Rightarrow> bool" where
  "ready_now h A N =
     (case N of
        None \<Rightarrow> False
      | Some a \<Rightarrow>
          (case h a of
             None \<Rightarrow> False
           | Some n \<Rightarrow>
               state n = Ready \<and>
               (\<forall>p. Some p \<in> set (predecessors n) \<and> Some p \<notin> A \<longrightarrow> completed_at h p)))"

definition run_inv :: "heap \<Rightarrow> event list \<Rightarrow> heap \<Rightarrow> bool" where
  "run_inv h0 tr h =
     ((\<forall>a. map_option predecessors (h a) = map_option predecessors (h0 a))
      \<and> (\<forall>a n. h a = Some n \<and> state n = Completed \<longrightarrow> Finished a \<in> set tr)
      \<and> (\<forall>i S sn P. i < length tr \<and> tr ! i = Started S \<and> h0 S = Some sn
            \<and> Some P \<in> set (predecessors sn) \<longrightarrow> (\<exists>j<i. tr ! j = Finished P)))"

section \<open>Concrete stores and graphs\<close>

text \<open>Two fresh nodes at addresses 0 and 1, and the same two after \<^verbatim>\<open>t0.depend(t1)\<close>.\<close>

definition store2 :: heap where
  "store2 = [0 \<mapsto> new_INode, 1 \<mapsto> new_INode]"

definition store2_linked :: heap where
  "store2_linked =
     [0 \<mapsto> new_INode\<lparr>predecessors := [Some 1]\<rparr>, 1 \<mapsto> new_INode\<lparr>successors := [Some 0]\<rparr>]"

text \<open>A graph that is executing and owns node 0, and a store where node 0 has completed.\<close>

definition graph_running :: ThreadGraph where
  "graph_running = (new_ThreadGraph 2 True)\<lparr>executing_flag := True, task_pool := [Some 0]\<rparr>"

definition store_completed :: heap where
  "store_completed = [0 \<mapsto> new_INode\<lparr>state := Completed\<rparr>]"

text \<open>A running graph of three nodes: node 0 has completed, nodes 1 and 2 are executing.\<close>

definition store_busy :: heap where
  "store_busy =
     [0 \<mapsto> new_INode\<lparr>state := Completed\<rparr>, 1 \<mapsto> new_INode\<lparr>state := Executing\<rparr>,
      2 \<mapsto> new_INode\<lparr>state := Executing\<rparr>]"

definition graph_busy :: ThreadGraph where
  "graph_busy =
     (new_ThreadGraph 2 True)\<lparr>executing_flag := True, task_pool := [Some 0, Some 1, Some 2]\<rparr>"

text \<open>
  Graphs whose workers have ended: two payloads threw standard exceptions; one payload threw a
  standard exception and another an object that is not a \<^verbatim>\<open>std::exception\<close>.
\<close>

definition graph_two_faults :: ThreadGraph where
  "graph_two_faults =
     (new_ThreadGraph 3 False)\<lparr>executing_flag := True, termination_flag := True,
        worker_contexts := [Some (Faulted (runtime_error ''boom'')), Some Done,
                            Some (Faulted (std_exception ''bang''))]\<rparr>"

definition graph_foreign_fault :: ThreadGraph where
  "graph_foreign_fault =
     (new_ThreadGraph 2 False)\<lparr>executing_flag := True, termination_flag := True,
        worker_contexts := [Some (Faulted (runtime_error ''boom'')),
                            Some (Faulted non_std_exception)]\<rparr>"

text \<open>
  A client program: three nodes are allocated and pushed (the fourth push is a duplicate and
  throws), edges 0 \<rightarrow> 1 and 1 \<rightarrow> 2 are added, the back edge 1 \<rightarrow> 0 is refused, the edge
  1 \<rightarrow> 2 is removed and node 0 is erased.
\<close>

definition client_program :: "op list" where
  "client_program =
     [New 0, New 1, New 2, Push (Some 0), Push (Some 1), Push (Some 2), Push (Some 0),
      Depend (Task (Some 1)) (Task (Some 0)), Precede (Task (Some 1)) (Task (Some 2)),
      Depend (Task (Some 0)) (Task (Some 1)), Erase_depend (Task (Some 2)) (Task (Some 1)),
      Erase (Task (Some 0))]"

definition store_after :: heap where
  "store_after = [1 \<mapsto> new_INode, 2 \<mapsto> new_INode]"

definition graph_after :: ThreadGraph where
  "graph_after = (new_ThreadGraph 2 True)\<lparr>task_pool := [Some 1, Some 2]\<rparr>"

text \<open>The graph that owns the two linked nodes of \<open>store2_linked\<close>.\<close>

definition graph_pair :: ThreadGraph where
  "graph_pair = (new_ThreadGraph 2 True)\<lparr>task_pool := [Some 0, Some 1]\<rparr>"

text \<open>
  A diamond 0 \<rightarrow> {1, 2} \<rightarrow> 3 in mid-run: node 0 has completed, node 1 is executing, nodes 2
  and 3 are ready.
\<close>

definition store_diamond :: heap where
  "store_diamond =
     [0 \<mapsto> \<lparr>state = Completed, predecessors = [], successors = [Some 1, Some 2]\<rparr>,
      1 \<mapsto> \<lparr>state = Executing, predecessors = [Some 0], successors = [Some 3]\<rparr>,
      2 \<mapsto> \<lparr>state = Ready, predecessors = [Some 0], successors = [Some 3]\<rparr>,
      3 \<mapsto> \<lparr>state = Ready, predecessors = [Some 1, Some 2], successors = []\<rparr>]"

text \<open>
  A run of the two linked nodes (node 0 depends on node 1): the graph just after \<^verbatim>\<open>start\<close>,
  and the store after node 1 is claimed, after it completes, and after node 0 is claimed.
\<close>

definition graph_started :: ThreadGraph where
  "graph_started =
     (new_ThreadGraph 2 True)\<lparr>executing_flag := True, task_pool := [Some 0, Some 1],
        ready_tasks_cache := [Some 0, Some 1]\<rparr>"

definition store_run1 :: heap where
  "store_run1 =
     [0 \<mapsto> \<lparr>state = Ready, predecessors = [Some 1], successors = []\<rparr>,
      1 \<mapsto> \<lparr>state = Executing, predecessors = [], successors = [Some 0]\<rparr>]"

definition store_run2 :: heap where
  "store_run2 =
     [0 \<mapsto> \<lparr>state = Ready, predecessors = [Some 1], successors = []\<rparr>,
      1 \<mapsto> \<lparr>state = Completed, predecessors = [], successors = [Some 0]\<rparr>]"

definition store_run3 :: heap where
  "store_run3 =
     [0 \<mapsto> \<lparr>state = Executing, predecessors = [Some 1], successors = []\<rparr>,
      1 \<mapsto> \<lparr>state = Completed, predecessors = [], successors = [Some 0]\<rparr>]"

section \<open>Task handles: argument checks and the direct-cycle check\<close>

lemma depend_success_facts:
  assumes "depend a b h = (Inr r, h')"
  shows "\<exists>x y n m. node a = Some x \<and> node b = Some y \<and> x \<noteq> y \<and> h' x = Some n \<and> h' y = Some m
          \<and> Some y \<in> set (predecessors n)"
  using assms
  by (auto simp: depend_def deref_def Let_def split: if_splits option.splits sum.splits)

lemma depend_store2:
  "depend (Task (Some 0)) (Task (Some 1)) store2 = (Inr (Task (Some 0)), store2_linked)"
  by (auto simp: depend_def deref_def store2_def store2_linked_def new_INode_def Let_def CYCLE_def)

text \<open>
  Claim C4. Once \<open>a.depend(b)\<close> has returned normally (which needs both handles to name
  live, distinct nodes), \<open>b.depend(a)\<close> in the resulting store throws the circular-dependency
  error and the store, hence every edge vector, is what it was before the call.
\<close>

theorem depend_direct_cycle:
  assumes "depend a b h = (Inr r, h')"
  shows "depend b a h' = (Inl CYCLE, h')"
proof -
  from depend_success_facts [OF assms] obtain x y n m where
    f: "node a = Some x" "node b = Some y" "x \<noteq> y" "h' x = Some n" "h' y = Some m"
       "Some y \<in> set (predecessors n)" by blast
  then show ?thesis by (simp add: depend_def deref_def)
qed

theorem depend_direct_cycle_witness:
  "depend (Task (Some 0)) (Task (Some 1)) store2 = (Inr (Task (Some 0)), store2_linked)
   \<and> depend (Task (Some 1)) (Task (Some 0)) store2_linked = (Inl CYCLE, store2_linked)"
  using depend_direct_cycle [OF depend_store2] depend_store2 by simp

text \<open>
  Claim C5. The claim asks for INVALID_ARGUMENT whenever either handle is empty. When
  \<open>this\<close> is the empty handle and the argument names a live node, neither argument check
  fires and the call reads \<^verbatim>\<open>_node->_predecessors\<close> through the null pointer: the outcome
  is undefined behaviour, not an invalid-argument exception.
\<close>

theorem depend_empty_this:
  "Task_empty Task_default
   \<and> depend Task_default (Task (Some 0)) store2 = (Inl undefined_behaviour, store2)
   \<and> \<not> is_invalid_argument (fst (depend Task_default (Task (Some 0)) store2))"
  by (simp add: depend_def deref_def store2_def new_INode_def Task_default_def CYCLE_def
      Task_empty_def)

section \<open>Graph mutation: push\<close>

text \<open>
  Claim C7, as stated, fails: with the graph executing, pushing a live node whose state is
  not Ready (and which is already in the pool) throws the runtime error of the executing
  check, which comes before the state and duplicate checks, not INVALID_ARGUMENT.
\<close>

theorem push_not_ready_while_executing:
  "deref store_completed (Some 0) = Inr (new_INode\<lparr>state := Completed\<rparr>)
   \<and> state (new_INode\<lparr>state := Completed\<rparr>) \<noteq> Ready
   \<and> Some 0 \<in> set (task_pool graph_running)
   \<and> push store_completed graph_running (Some 0)
       = (Inl (runtime_error ''Cannot push tasks while executing.''), graph_running)
   \<and> \<not> is_invalid_argument (fst (push store_completed graph_running (Some 0)))"
  by (simp add: push_def deref_def store_completed_def graph_running_def new_ThreadGraph_def
      executing_def new_INode_def)

text \<open>
  Claim C7, amended: the checks apply in order. A null node fails with INVALID_ARGUMENT;
  otherwise an executing graph fails with RUNTIME_ERROR; otherwise a node that is not Ready
  or is already in the pool fails with INVALID_ARGUMENT; every failure leaves the graph as
  it was; otherwise the node is appended to the pool and a handle to it is returned.
\<close>

theorem push_checks_in_order:
  "(nd = None \<longrightarrow> is_invalid_argument (fst (push h g nd)) \<and> snd (push h g nd) = g)
 \<and> (nd \<noteq> None \<and> executing g \<longrightarrow> is_runtime_error (fst (push h g nd)) \<and> snd (push h g nd) = g)
 \<and> (deref h nd = Inr n \<and> \<not> executing g \<and> (state n \<noteq> Ready \<or> nd \<in> set (task_pool g)) \<longrightarrow>
      is_invalid_argument (fst (push h g nd)) \<and> snd (push h g nd) = g)
 \<and> (deref h nd = Inr n \<and> \<not> executing g \<and> state n = Ready \<and> nd \<notin> set (task_pool g) \<longrightarrow>
      push h g nd = (Inr (Task nd), g\<lparr>task_pool := task_pool g @ [nd]\<rparr>))"
proof -
  have ne: "deref h nd = Inr n \<Longrightarrow> nd \<noteq> None"
    by (auto simp: deref_def split: option.splits)
  have st: "state n \<noteq> Ready \<longleftrightarrow> state n = Executing \<or> state n = Completed"
    by (cases "state n") auto
  show ?thesis using ne st by (auto simp: push_def)
qed

theorem push_checks_in_order_witness:
  "is_invalid_argument (fst (push store2 graph_running None))
   \<and> is_runtime_error (fst (push store_completed graph_running (Some 0)))
   \<and> is_invalid_argument (fst (push store_completed (new_ThreadGraph 2 True) (Some 0)))
   \<and> is_invalid_argument (fst (push store2 (graph_running\<lparr>executing_flag := False\<rparr>) (Some 0)))
   \<and> push store2 (new_ThreadGraph 2 True) (Some 1)
       = (Inr (Task (Some 1)), (new_ThreadGraph 2 True)\<lparr>task_pool := [Some 1]\<rparr>)"
  using push_checks_in_order [where nd = None and h = store2 and g = graph_running]
    push_checks_in_order [where nd = "Some 0" and h = store_completed and g = graph_running]
    push_checks_in_order [where nd = "Some 0" and h = store_completed
      and g = "new_ThreadGraph 2 True" and n = "new_INode\<lparr>state := Completed\<rparr>"]
    push_checks_in_order [where nd = "Some 0" and h = store2
      and g = "graph_running\<lparr>executing_flag := False\<rparr>" and n = new_INode]
    push_checks_in_order [where nd = "Some 1" and h = store2
      and g = "new_ThreadGraph 2 True" and n = new_INode]
  by (simp add: deref_def store2_def store_completed_def graph_running_def new_ThreadGraph_def
      executing_def new_INode_def)

section \<open>The entry variant of the trace, and wait\<close>

lemma first_executing_find:
  "\<forall>p \<in> set ps. live h p \<Longrightarrow> first_executing h ps = Inr (find (is_executing h) ps)"
  by (induction ps) (auto simp: live_def deref_def is_executing_def split: option.splits)

text \<open>
  Claim C3. With a null hint, \<open>trace_ready_node\<close> returns what \<open>trace_ready_depend\<close>
  returns for the first element of the ready cache (with no avoid-set) when the cache is not
  empty; with an empty cache (the pool holding live nodes) it returns Pending with the first
  node of the task pool whose state is Executing, and Completed with the null pointer when
  there is none.
\<close>

theorem trace_ready_node_entry_variant:
  "(ready_tasks_cache g = c # cs \<longrightarrow> trace_ready_node k h g None = trace_ready_depend k h c {})
 \<and> (ready_tasks_cache g = [] \<and> (\<forall>p \<in> set (task_pool g). live h p) \<longrightarrow>
      trace_ready_node k h g None =
        (case find (is_executing h) (task_pool g) of
           Some t \<Rightarrow> Some (Inr (TracePending, t))
         | None \<Rightarrow> Some (Inr (TraceCompleted, None))))"
  by (auto simp: trace_ready_node_def trace_ready_node_entry_def first_executing_find
      split: option.splits)

theorem trace_ready_node_entry_variant_witness:
  "trace_ready_node 1 store_busy (graph_busy\<lparr>ready_tasks_cache := [Some 1, Some 0]\<rparr>) None
     = Some (Inr (TracePending, Some 1))
 \<and> trace_ready_node 0 store_busy graph_busy None = Some (Inr (TracePending, Some 1))
 \<and> trace_ready_node 0 store_completed (graph_running\<lparr>ready_tasks_cache := []\<rparr>) None
     = Some (Inr (TraceCompleted, None))"
  using trace_ready_node_entry_variant [where g = "graph_busy\<lparr>ready_tasks_cache := [Some 1, Some 0]\<rparr>"
      and c = "Some 1" and cs = "[Some 0]" and k = 1 and h = store_busy]
    trace_ready_node_entry_variant [where g = graph_busy and k = 0 and h = store_busy]
    trace_ready_node_entry_variant [where g = "graph_running\<lparr>ready_tasks_cache := []\<rparr>" and k = 0
      and h = store_completed]
  by (simp add: graph_busy_def store_busy_def new_ThreadGraph_def new_INode_def live_def
      is_executing_def deref_def graph_running_def store_completed_def)

lemma contains_Nil: "contains v []"
  by (cases v) auto

lemma contains_prefix: "contains (w @ v) w"
  by (cases w) (auto simp: contains_Nil)

lemma contains_append: "contains (u @ w @ v) w"
  by (induction u) (simp_all add: contains_prefix)

lemma collect_messages_joined:
  "\<forall>e \<in> set (faults cs). what e \<noteq> None \<Longrightarrow>
   fst (collect_messages cs msg) = Inr (msg @ joined_messages (faults cs))"
  by (induction cs msg rule: collect_messages.induct) (auto split: option.splits prod.splits)

lemma collect_messages_foreign:
  "e \<in> set (faults cs) \<Longrightarrow> what e = None \<Longrightarrow>
   \<exists>e'. fst (collect_messages cs msg) = Inl e' \<and> what e' = None \<and> e' \<in> set (faults cs)"
proof (induction cs msg rule: collect_messages.induct)
  case (1 msg)
  then show ?case by simp
next
  case (2 cs msg)
  then show ?case by (auto split: prod.splits)
next
  case (3 cs msg)
  then show ?case by (auto split: prod.splits)
next
  case (4 x cs msg)
  show ?case
  proof (cases "what x")
    case None
    then show ?thesis by simp
  next
    case (Some w)
    then have "e \<in> set (faults cs)" using "4.prems" by auto
    from "4.IH" [OF Some this "4.prems"(2)] Some show ?thesis
      by (auto split: prod.splits)
  qed
qed

lemma joined_messages_contains:
  "e \<in> set es \<Longrightarrow> what e = Some w \<Longrightarrow> contains (p @ joined_messages es) w"
proof (induction es arbitrary: p)
  case Nil then show ?case by simp
next
  case (Cons x xs)
  show ?case
  proof (cases "e = x")
    case True
    then have "p @ joined_messages (x # xs) = p @ w @ ([CHR 0x0A] @ joined_messages xs)"
      using Cons.prems by simp
    then show ?thesis using contains_append by metis
  next
    case False
    then have "e \<in> set xs" using Cons.prems by simp
    from Cons.IH [OF this Cons.prems(2), of "p @ (case what x of Some w \<Rightarrow> w @ [CHR 0x0A] | None \<Rightarrow> [])"]
    show ?thesis by simp
  qed
qed

lemma joined_messages_nonempty:
  "es \<noteq> [] \<Longrightarrow> \<forall>e \<in> set es. what e \<noteq> None \<Longrightarrow> joined_messages es \<noteq> []"
  by (cases es) (auto split: option.splits)

lemma reset_contexts: "reset (g\<lparr>worker_contexts := cs\<rparr>) = reset g"
  by (simp add: reset_def)

text \<open>
  Where every faulted worker captured an exception that derives from \<^verbatim>\<open>std::exception\<close>,
  \<open>wait\<close> behaves as intended: with at least one fault it resets the graph and throws a
  runtime error whose message is the fixed prefix followed by every captured message, each
  with a newline, in worker order (so it contains each of them); with no fault it returns
  normally.
\<close>

lemma wait_collects_messages:
  assumes "\<forall>e \<in> set (faults (worker_contexts g)). what e \<noteq> None"
  shows "(faults (worker_contexts g) = [] \<longrightarrow> wait g = (Inr (), reset g))
       \<and> (faults (worker_contexts g) \<noteq> [] \<longrightarrow>
            wait g = (Inl (runtime_error (''Exception occurred in worker thread: ''
                        @ joined_messages (faults (worker_contexts g)))), reset g)
            \<and> (\<forall>e \<in> set (faults (worker_contexts g)). \<forall>w. what e = Some w \<longrightarrow>
                  raises_containing (fst (wait g)) w))"
proof -
  let ?fs = "faults (worker_contexts g)"
  obtain cs' where c: "collect_messages (worker_contexts g) [] = (Inr (joined_messages ?fs), cs')"
    using collect_messages_joined [OF assms, of "[]"]
    by (cases "collect_messages (worker_contexts g) []") simp
  have a: "?fs = [] \<longrightarrow> wait g = (Inr (), reset g)"
    by (simp add: wait_def c reset_contexts)
  have b: "?fs \<noteq> [] \<longrightarrow> wait g = (Inl (runtime_error (''Exception occurred in worker thread: ''
                        @ joined_messages ?fs)), reset g)"
    using joined_messages_nonempty [OF _ assms] by (simp add: wait_def c reset_contexts)
  have d: "\<forall>e \<in> set ?fs. \<forall>w. what e = Some w \<longrightarrow> raises_containing (fst (wait g)) w"
  proof (intro ballI allI impI)
    fix e w assume e: "e \<in> set ?fs" and w: "what e = Some w"
    then have "?fs \<noteq> []" by auto
    with b have "fst (wait g) = Inl (runtime_error (''Exception occurred in worker thread: ''
                        @ joined_messages ?fs))" by simp
    then show "raises_containing (fst (wait g)) w"
      using joined_messages_contains [OF e w, of "''Exception occurred in worker thread: ''"]
      by (simp add: raises_containing_def)
  qed
  show ?thesis using a b d by blast
qed

lemma wait_two_faults:
  "faults (worker_contexts graph_two_faults) = [runtime_error ''boom'', std_exception ''bang'']
   \<and> wait graph_two_faults =
       (Inl (runtime_error ''Exception occurred in worker thread: boom\<newline>bang\<newline>''), reset graph_two_faults)
   \<and> raises_containing (fst (wait graph_two_faults)) ''boom''
   \<and> raises_containing (fst (wait graph_two_faults)) ''bang''
   \<and> wait (new_ThreadGraph 2 True) = (Inr (), reset (new_ThreadGraph 2 True))"
proof -
  have f: "faults (worker_contexts graph_two_faults) = [runtime_error ''boom'', std_exception ''bang'']"
    by (simp add: graph_two_faults_def new_ThreadGraph_def)
  have h: "\<forall>e \<in> set (faults (worker_contexts graph_two_faults)). what e \<noteq> None"
    by (simp add: f)
  have f0: "faults (worker_contexts (new_ThreadGraph 2 True)) = []"
    by (simp add: new_ThreadGraph_def)
  have h0: "\<forall>e \<in> set (faults (worker_contexts (new_ThreadGraph 2 True))). what e \<noteq> None"
    by (simp add: f0)
  show ?thesis
    using h wait_collects_messages [OF h] wait_collects_messages [OF h0]
    by (auto simp: f f0)
qed

text \<open>
  Whenever some worker captured an object that is not a \<^verbatim>\<open>std::exception\<close>, \<open>wait\<close> ends
  with such an object: what it raises has no message at all.
\<close>

lemma wait_foreign_escapes:
  assumes "e \<in> set (faults (worker_contexts g))" and "what e = None"
  shows "\<exists>e'. fst (wait g) = Inl e' \<and> what e' = None"
proof -
  from collect_messages_foreign [OF assms, of "[]"] obtain e' cs' where
    "collect_messages (worker_contexts g) [] = (Inl e', cs')" "what e' = None"
    by (cases "collect_messages (worker_contexts g) []") auto
  then show ?thesis by (simp add: wait_def)
qed

text \<open>
  Claim C9. The claim asks that \<open>wait\<close> raise an error whose message contains the message
  of every faulted worker. The code breaks it when a payload throws an object that is not a
  \<^verbatim>\<open>std::exception\<close>: worker 0 captured a runtime error "boom" and worker 1 such an
  object. The second \<^verbatim>\<open>future.get()\<close> rethrows past the handler of \<open>wait\<close>, so \<open>wait\<close>
  ends with that object, which has no message containing "boom"; the joins and the reset
  are skipped (the graph still counts as executing), both futures have been consumed, and a
  second \<open>wait\<close> returns normally: the message "boom" is never reported.
\<close>

theorem wait_foreign_exception:
  "faults (worker_contexts graph_foreign_fault) = [runtime_error ''boom'', non_std_exception]
   \<and> wait graph_foreign_fault
       = (Inl non_std_exception, graph_foreign_fault\<lparr>worker_contexts := [None, None]\<rparr>)
   \<and> \<not> raises_containing (fst (wait graph_foreign_fault)) ''boom''
   \<and> executing (snd (wait graph_foreign_fault))
   \<and> wait (snd (wait graph_foreign_fault)) = (Inr (), reset graph_foreign_fault)"
  by (simp add: graph_foreign_fault_def new_ThreadGraph_def wait_def raises_containing_def
      executing_def reset_def)

section \<open>Erase, and the invariant of the edge vectors\<close>

lemma live_Some: "live h (Some a) = (h a \<noteq> None)"
  by (simp add: live_def)

lemma live_None: "\<not> live h None"
  by (simp add: live_def)

lemma live_cases: "live h p \<Longrightarrow> \<exists>a n. p = Some a \<and> h a = Some n"
  by (cases p) (auto simp: live_def)

lemma unlink_from_successors_result:
  "\<forall>p \<in> set ps. live h p \<Longrightarrow>
   \<exists>h'. unlink_from_successors tn ps h = Inr h' \<and>
     (\<forall>b. h' b = (if Some b \<in> set ps
                   then map_option (\<lambda>n. n\<lparr>successors := removeAll tn (successors n)\<rparr>) (h b)
                   else h b))"
proof (induction ps arbitrary: h)
  case Nil
  then show ?case by simp
next
  case (Cons p ps)
  from Cons.prems obtain a n where p: "p = Some a" "h a = Some n"
    by (auto simp: live_def split: option.splits)
  let ?h1 = "h(a \<mapsto> n\<lparr>successors := removeAll tn (successors n)\<rparr>)"
  have "\<forall>q \<in> set ps. live ?h1 q"
    using Cons.prems by (auto simp: live_def split: option.splits)
  from Cons.IH [OF this] obtain h' where
    h': "unlink_from_successors tn ps ?h1 = Inr h'"
        "\<And>b. h' b = (if Some b \<in> set ps
                   then map_option (\<lambda>n. n\<lparr>successors := removeAll tn (successors n)\<rparr>) (?h1 b)
                   else ?h1 b)" by blast
  have "unlink_from_successors tn (p # ps) h = Inr h'"
    using p h'(1) by simp
  moreover have "\<forall>b. h' b = (if Some b \<in> set (p # ps)
                   then map_option (\<lambda>n. n\<lparr>successors := removeAll tn (successors n)\<rparr>) (h b)
                   else h b)"
    using p by (auto simp: h'(2))
  ultimately show ?case by blast
qed

lemma unlink_from_predecessors_result:
  "\<forall>p \<in> set ps. live h p \<Longrightarrow>
   \<exists>h'. unlink_from_predecessors tn ps h = Inr h' \<and>
     (\<forall>b. h' b = (if Some b \<in> set ps
                   then map_option (\<lambda>n. n\<lparr>predecessors := removeAll tn (predecessors n)\<rparr>) (h b)
                   else h b))"
proof (induction ps arbitrary: h)
  case Nil
  then show ?case by simp
next
  case (Cons p ps)
  from Cons.prems obtain a n where p: "p = Some a" "h a = Some n"
    by (auto simp: live_def split: option.splits)
  let ?h1 = "h(a \<mapsto> n\<lparr>predecessors := removeAll tn (predecessors n)\<rparr>)"
  have "\<forall>q \<in> set ps. live ?h1 q"
    using Cons.prems by (auto simp: live_def split: option.splits)
  from Cons.IH [OF this] obtain h' where
    h': "unlink_from_predecessors tn ps ?h1 = Inr h'"
        "\<And>b. h' b = (if Some b \<in> set ps
                   then map_option (\<lambda>n. n\<lparr>predecessors := removeAll tn (predecessors n)\<rparr>) (?h1 b)
                   else ?h1 b)" by blast
  have "unlink_from_predecessors tn (p # ps) h = Inr h'"
    using p h'(1) by simp
  moreover have "\<forall>b. h' b = (if Some b \<in> set (p # ps)
                   then map_option (\<lambda>n. n\<lparr>predecessors := removeAll tn (predecessors n)\<rparr>) (h b)
                   else h b)"
    using p by (auto simp: h'(2))
  ultimately show ?case by blast
qed

lemma erase_success:
  assumes inv: "graph_inv (h, g)" and t: "node t = Some a" and ne: "\<not> executing g"
    and pool: "Some a \<in> set (task_pool g)"
  shows "erase h g t = (Inr True, erased_store a h,
                        g\<lparr>task_pool := remove1 (Some a) (task_pool g)\<rparr>, Task None)"
proof -
  from inv have sym: "edge_symmetry h" and lv: "edges_live h" and po: "pool_ok h g"
    by (simp_all add: graph_inv_def)
  from po pool have "live h (Some a)" by (auto simp: pool_ok_def)
  then obtain n where n: "h a = Some n" by (auto simp: live_Some)
  let ?fS = "\<lambda>n. n\<lparr>successors := removeAll (Some a) (successors n)\<rparr>"
  let ?fP = "\<lambda>n. n\<lparr>predecessors := removeAll (Some a) (predecessors n)\<rparr>"
  have "\<forall>p \<in> set (predecessors n). live h p" using lv n by (auto simp: edges_live_def)
  from unlink_from_successors_result [OF this, of "Some a"] obtain h1 where
    h1: "unlink_from_successors (Some a) (predecessors n) h = Inr h1"
        "\<And>b. h1 b = (if Some b \<in> set (predecessors n) then map_option ?fS (h b) else h b)"
    by blast
  obtain n1 where n1: "h1 a = Some n1" "set (successors n1) \<subseteq> set (successors n)"
    "\<And>b. b \<noteq> a \<Longrightarrow> (Some b \<in> set (successors n1)) = (Some b \<in> set (successors n))"
    using n by (cases "Some a \<in> set (predecessors n)") (auto simp: h1(2))
  have l1: "\<And>p. live h p \<Longrightarrow> live h1 p"
    by (auto simp: live_def h1(2) split: option.splits)
  have "\<forall>s \<in> set (successors n1). live h1 s"
    using lv n n1(2) l1 by (auto simp: edges_live_def)
  from unlink_from_predecessors_result [OF this, of "Some a"] obtain h2 where
    h2: "unlink_from_predecessors (Some a) (successors n1) h1 = Inr h2"
        "\<And>b. h2 b = (if Some b \<in> set (successors n1) then map_option ?fP (h1 b) else h1 b)"
    by blast
  have "h2(a := None) = erased_store a h"
  proof (rule ext)
    fix b
    show "(h2(a := None)) b = erased_store a h b"
    proof (cases "b = a")
      case True then show ?thesis by (simp add: erased_store_def)
    next
      case False
      show ?thesis
      proof (cases "h b")
        case None
        then show ?thesis using False by (simp add: erased_store_def h2(2) h1(2))
      next
        case (Some bn)
        have s1: "(Some b \<in> set (successors n)) = (Some a \<in> set (predecessors bn))"
          using sym n Some by (auto simp: edge_symmetry_def)
        have s2: "(Some a \<in> set (successors bn)) = (Some b \<in> set (predecessors n))"
          using sym n Some by (auto simp: edge_symmetry_def)
        show ?thesis
          using False Some s1 s2 n1(3) [OF False]
          by (auto simp: erased_store_def h2(2) h1(2) detach_def)
      qed
    qed
  qed
  then show ?thesis
    using t ne pool n h1(1) n1(1) h2(1) by (simp add: erase_def)
qed


lemma depend_result:
  assumes d: "depend a b h = (r, h')" and r: "r \<noteq> Inl undefined_behaviour" and sym: "edge_symmetry h"
  shows "h' = h \<or> (\<exists>x y nx ny. x \<noteq> y \<and> h x = Some nx \<and> h y = Some ny
           \<and> Some y \<notin> set (predecessors nx) \<and> Some x \<notin> set (successors ny)
           \<and> h' = h(x \<mapsto> nx\<lparr>predecessors := predecessors nx @ [Some y]\<rparr>,
                    y \<mapsto> ny\<lparr>successors := successors ny @ [Some x]\<rparr>))"
proof (cases r)
  case (Inl e)
  then show ?thesis using d r
    by (auto simp: depend_def deref_def Let_def split: if_splits option.splits sum.splits)
next
  case (Inr v)
  then obtain x y nx ny where xy: "node a = Some x" "node b = Some y" "x \<noteq> y"
      "h x = Some nx" "h y = Some ny"
    using d by (auto simp: depend_def deref_def Let_def split: if_splits option.splits sum.splits)
  have s: "(Some x \<in> set (successors ny)) = (Some y \<in> set (predecessors nx))"
    using sym xy by (auto simp: edge_symmetry_def)
  show ?thesis
  proof (cases "Some y \<in> set (predecessors nx)")
    case True
    then have "h' = h" using d xy s Inr
      by (auto simp: depend_def deref_def Let_def split: if_splits)
    then show ?thesis by simp
  next
    case False
    then have "h' = h(x \<mapsto> nx\<lparr>predecessors := predecessors nx @ [Some y]\<rparr>,
                    y \<mapsto> ny\<lparr>successors := successors ny @ [Some x]\<rparr>)"
      using d xy s Inr
      by (auto simp: depend_def deref_def Let_def split: if_splits)
    then show ?thesis using xy False s by blast
  qed
qed

lemma add_edge_heap_inv:
  assumes inv: "heap_inv h" and xy: "x \<noteq> y" "h x = Some nx" "h y = Some ny"
    and nin: "Some y \<notin> set (predecessors nx)" "Some x \<notin> set (successors ny)"
  shows "heap_inv (h(x \<mapsto> nx\<lparr>predecessors := predecessors nx @ [Some y]\<rparr>,
                    y \<mapsto> ny\<lparr>successors := successors ny @ [Some x]\<rparr>))"
proof -
  let ?h' = "h(x \<mapsto> nx\<lparr>predecessors := predecessors nx @ [Some y]\<rparr>,
               y \<mapsto> ny\<lparr>successors := successors ny @ [Some x]\<rparr>)"
  from inv have sym: "edge_symmetry h" and nd: "no_duplicates h" and lv: "edges_live h"
    by (simp_all add: heap_inv_def)
  have l: "\<And>p. live h p \<Longrightarrow> live ?h' p"
    by (auto simp: live_def split: option.splits)
  have "edge_symmetry ?h'"
    unfolding edge_symmetry_def
  proof (intro allI impI)
    fix c d cn dn
    assume "?h' c = Some cn \<and> ?h' d = Some dn"
    then show "(Some d \<in> set (successors cn)) = (Some c \<in> set (predecessors dn))"
      using sym xy nin
      by (auto simp: edge_symmetry_def split: if_splits)
  qed
  moreover have "no_duplicates ?h'"
    using nd xy nin by (auto simp: no_duplicates_def)
  moreover have "edges_live ?h'"
    unfolding edges_live_def
  proof (intro allI impI)
    fix c cn assume c: "?h' c = Some cn"
    have lx: "live ?h' (Some x)" and ly: "live ?h' (Some y)" using xy by (auto simp: live_def)
    show "(\<forall>p\<in>set (predecessors cn). live ?h' p) \<and> (\<forall>s\<in>set (successors cn). live ?h' s)"
      using c lv xy l lx ly by (auto simp: edges_live_def split: if_splits)
  qed
  ultimately show ?thesis by (simp add: heap_inv_def)
qed


lemma remove_edge_heap_inv:
  assumes inv: "heap_inv h" and a: "h a = Some n"
    and b: "(h(a \<mapsto> n\<lparr>predecessors := removeAll (Some b) (predecessors n)\<rparr>)) b = Some m"
  shows "heap_inv (h(a \<mapsto> n\<lparr>predecessors := removeAll (Some b) (predecessors n)\<rparr>,
                    b \<mapsto> m\<lparr>successors := removeAll (Some a) (successors m)\<rparr>))"
proof -
  let ?h' = "h(a \<mapsto> n\<lparr>predecessors := removeAll (Some b) (predecessors n)\<rparr>,
               b \<mapsto> m\<lparr>successors := removeAll (Some a) (successors m)\<rparr>)"
  from inv have sym: "edge_symmetry h" and nd: "no_duplicates h" and lv: "edges_live h"
    by (simp_all add: heap_inv_def)
  have l: "\<And>p. live h p \<Longrightarrow> live ?h' p"
    by (auto simp: live_def split: option.splits)
  have "edge_symmetry ?h'"
    unfolding edge_symmetry_def
  proof (intro allI impI)
    fix c d cn dn
    assume "?h' c = Some cn \<and> ?h' d = Some dn"
    then show "(Some d \<in> set (successors cn)) = (Some c \<in> set (predecessors dn))"
      using sym a b
      by (auto simp: edge_symmetry_def split: if_splits)
  qed
  moreover have "no_duplicates ?h'"
    using nd a b by (auto simp: no_duplicates_def distinct_removeAll split: if_splits)
  moreover have "edges_live ?h'"
    unfolding edges_live_def
  proof (intro allI impI)
    fix c cn assume c: "?h' c = Some cn"
    show "(\<forall>p\<in>set (predecessors cn). live ?h' p) \<and> (\<forall>s\<in>set (successors cn). live ?h' s)"
      using c lv a b l by (auto simp: edges_live_def split: if_splits)
  qed
  ultimately show ?thesis by (simp add: heap_inv_def)
qed

lemma remove_edge_heap_inv':
  assumes inv: "heap_inv h" and a: "h a = Some n"
    and b: "(h(a \<mapsto> n\<lparr>successors := removeAll (Some b) (successors n)\<rparr>)) b = Some m"
  shows "heap_inv (h(a \<mapsto> n\<lparr>successors := removeAll (Some b) (successors n)\<rparr>,
                    b \<mapsto> m\<lparr>predecessors := removeAll (Some a) (predecessors m)\<rparr>))"
proof -
  let ?h' = "h(a \<mapsto> n\<lparr>successors := removeAll (Some b) (successors n)\<rparr>,
               b \<mapsto> m\<lparr>predecessors := removeAll (Some a) (predecessors m)\<rparr>)"
  from inv have sym: "edge_symmetry h" and nd: "no_duplicates h" and lv: "edges_live h"
    by (simp_all add: heap_inv_def)
  have l: "\<And>p. live h p \<Longrightarrow> live ?h' p"
    by (auto simp: live_def split: option.splits)
  have "edge_symmetry ?h'"
    unfolding edge_symmetry_def
  proof (intro allI impI)
    fix c d cn dn
    assume "?h' c = Some cn \<and> ?h' d = Some dn"
    then show "(Some d \<in> set (successors cn)) = (Some c \<in> set (predecessors dn))"
      using sym a b
      by (auto simp: edge_symmetry_def split: if_splits)
  qed
  moreover have "no_duplicates ?h'"
    using nd a b by (auto simp: no_duplicates_def distinct_removeAll split: if_splits)
  moreover have "edges_live ?h'"
    unfolding edges_live_def
  proof (intro allI impI)
    fix c cn assume c: "?h' c = Some cn"
    show "(\<forall>p\<in>set (predecessors cn). live ?h' p) \<and> (\<forall>s\<in>set (successors cn). live ?h' s)"
      using c lv a b l by (auto simp: edges_live_def split: if_splits)
  qed
  ultimately show ?thesis by (simp add: heap_inv_def)
qed

lemma new_heap_inv:
  assumes inv: "heap_inv h" and a: "h a = None"
  shows "heap_inv (h(a \<mapsto> new_INode))"
proof -
  from inv have sym: "edge_symmetry h" and nd: "no_duplicates h" and lv: "edges_live h"
    by (simp_all add: heap_inv_def)
  have l: "\<And>p. live h p \<Longrightarrow> live (h(a \<mapsto> new_INode)) p"
    by (auto simp: live_def split: option.splits)
  have na: "\<And>c cn. h c = Some cn \<Longrightarrow>
      Some a \<notin> set (predecessors cn) \<and> Some a \<notin> set (successors cn)"
  proof -
    fix c cn assume c: "h c = Some cn"
    have "\<not> live h (Some a)" using a by (simp add: live_Some)
    then show "Some a \<notin> set (predecessors cn) \<and> Some a \<notin> set (successors cn)"
      using lv c unfolding edges_live_def by blast
  qed
  have "edge_symmetry (h(a \<mapsto> new_INode))"
    using sym na by (auto simp: edge_symmetry_def new_INode_def split: if_splits)
  moreover have "no_duplicates (h(a \<mapsto> new_INode))"
    using nd by (auto simp: no_duplicates_def new_INode_def)
  moreover have "edges_live (h(a \<mapsto> new_INode))"
    using lv l by (auto simp: edges_live_def new_INode_def split: if_splits)
  ultimately show ?thesis by (simp add: heap_inv_def)
qed

lemma erased_store_heap_inv:
  assumes inv: "heap_inv h"
  shows "heap_inv (erased_store a h)"
proof -
  from inv have sym: "edge_symmetry h" and nd: "no_duplicates h" and lv: "edges_live h"
    by (simp_all add: heap_inv_def)
  have l: "\<And>p. live h p \<Longrightarrow> p \<noteq> Some a \<Longrightarrow> live (erased_store a h) p"
    by (auto simp: live_def erased_store_def split: option.splits)
  have "edge_symmetry (erased_store a h)"
    using sym by (auto simp: edge_symmetry_def erased_store_def detach_def split: if_splits)
  moreover have "no_duplicates (erased_store a h)"
    using nd by (auto simp: no_duplicates_def erased_store_def detach_def distinct_removeAll
        split: if_splits)
  moreover have "edges_live (erased_store a h)"
    unfolding edges_live_def
  proof (intro allI impI)
    fix c cn assume c: "erased_store a h c = Some cn"
    then obtain cn0 where c0: "h c = Some cn0" "cn = detach a cn0"
      by (auto simp: erased_store_def split: if_splits)
    show "(\<forall>p\<in>set (predecessors cn). live (erased_store a h) p)
        \<and> (\<forall>s\<in>set (successors cn). live (erased_store a h) s)"
      using c0 lv l by (auto simp: edges_live_def detach_def)
  qed
  ultimately show ?thesis by (simp add: heap_inv_def)
qed

lemma graph_inv_iff: "graph_inv (h, g) = (heap_inv h \<and> pool_ok h g)"
  by (auto simp: graph_inv_def heap_inv_def)

lemma pool_ok_mono:
  "pool_ok h g \<Longrightarrow> (\<And>p. live h p \<Longrightarrow> live h' p) \<Longrightarrow> task_pool g' = task_pool g \<Longrightarrow> pool_ok h' g'"
  by (auto simp: pool_ok_def)

lemma depend_graph_inv:
  assumes inv: "graph_inv (h, g)" and d: "depend a b h = (r, h')" and r: "r \<noteq> Inl undefined_behaviour"
  shows "graph_inv (h', g)"
proof -
  from inv have hi: "heap_inv h" and po: "pool_ok h g" by (simp_all add: graph_inv_iff)
  from hi have sym: "edge_symmetry h" by (simp add: heap_inv_def)
  from depend_result [OF d r sym] show ?thesis
  proof
    assume "h' = h" then show ?thesis using inv by simp
  next
    assume "\<exists>x y nx ny. x \<noteq> y \<and> h x = Some nx \<and> h y = Some ny
           \<and> Some y \<notin> set (predecessors nx) \<and> Some x \<notin> set (successors ny)
           \<and> h' = h(x \<mapsto> nx\<lparr>predecessors := predecessors nx @ [Some y]\<rparr>,
                    y \<mapsto> ny\<lparr>successors := successors ny @ [Some x]\<rparr>)"
    then obtain x y nx ny where e: "x \<noteq> y" "h x = Some nx" "h y = Some ny"
       "Some y \<notin> set (predecessors nx)" "Some x \<notin> set (successors ny)"
       "h' = h(x \<mapsto> nx\<lparr>predecessors := predecessors nx @ [Some y]\<rparr>,
                    y \<mapsto> ny\<lparr>successors := successors ny @ [Some x]\<rparr>)" by blast
    have "heap_inv h'" using add_edge_heap_inv [OF hi e(1-5)] e(6) by simp
    moreover have "pool_ok h' g"
      by (rule pool_ok_mono [OF po]) (auto simp: e(6) live_def split: option.splits)
    ultimately show ?thesis by (simp add: graph_inv_iff)
  qed
qed

lemma erase_depend_graph_inv:
  assumes inv: "graph_inv (h, g)" and d: "erase_depend a b h = (r, h')"
    and r: "r \<noteq> Inl undefined_behaviour"
  shows "graph_inv (h', g)"
proof -
  from inv have hi: "heap_inv h" and po: "pool_ok h g" by (simp_all add: graph_inv_iff)
  show ?thesis
  proof (cases "h' = h")
    case True then show ?thesis using inv by simp
  next
    case False
    then obtain x y n m where e: "h x = Some n"
       "(h(x \<mapsto> n\<lparr>predecessors := removeAll (Some y) (predecessors n)\<rparr>)) y = Some m"
       "h' = h(x \<mapsto> n\<lparr>predecessors := removeAll (Some y) (predecessors n)\<rparr>,
               y \<mapsto> m\<lparr>successors := removeAll (Some x) (successors m)\<rparr>)"
      using d r by (auto simp: erase_depend_def Let_def split: option.splits)
    have "heap_inv h'" using remove_edge_heap_inv [OF hi e(1,2)] e(3) by simp
    moreover have "pool_ok h' g"
      by (rule pool_ok_mono [OF po]) (auto simp: e(3) live_def split: option.splits)
    ultimately show ?thesis by (simp add: graph_inv_iff)
  qed
qed

lemma erase_precede_graph_inv:
  assumes inv: "graph_inv (h, g)" and d: "erase_precede a b h = (r, h')"
    and r: "r \<noteq> Inl undefined_behaviour"
  shows "graph_inv (h', g)"
proof -
  from inv have hi: "heap_inv h" and po: "pool_ok h g" by (simp_all add: graph_inv_iff)
  show ?thesis
  proof (cases "h' = h")
    case True then show ?thesis using inv by simp
  next
    case False
    then obtain x y n m where e: "h x = Some n"
       "(h(x \<mapsto> n\<lparr>successors := removeAll (Some y) (successors n)\<rparr>)) y = Some m"
       "h' = h(x \<mapsto> n\<lparr>successors := removeAll (Some y) (successors n)\<rparr>,
               y \<mapsto> m\<lparr>predecessors := removeAll (Some x) (predecessors m)\<rparr>)"
      using d r by (auto simp: erase_precede_def Let_def split: option.splits)
    have "heap_inv h'" using remove_edge_heap_inv' [OF hi e(1,2)] e(3) by simp
    moreover have "pool_ok h' g"
      by (rule pool_ok_mono [OF po]) (auto simp: e(3) live_def split: option.splits)
    ultimately show ?thesis by (simp add: graph_inv_iff)
  qed
qed

lemma push_graph_inv:
  assumes inv: "graph_inv (h, g)" and d: "push h g p = (r, g')"
  shows "graph_inv (h, g')"
  using inv d
  by (auto simp: graph_inv_iff push_def pool_ok_def deref_def live_def
      split: if_splits option.splits sum.splits)

lemma erase_graph_inv:
  assumes inv: "graph_inv (h, g)" and d: "erase h g t = (r, h', g', t')"
    and r: "r \<noteq> Inl undefined_behaviour"
  shows "graph_inv (h', g')"
proof (cases "\<exists>a. node t = Some a \<and> \<not> executing g \<and> Some a \<in> set (task_pool g)")
  case True
  then obtain a where a: "node t = Some a" "\<not> executing g" "Some a \<in> set (task_pool g)" by blast
  from erase_success [OF inv a] d
  have e: "h' = erased_store a h" "g' = g\<lparr>task_pool := remove1 (Some a) (task_pool g)\<rparr>" by simp_all
  from inv have hi: "heap_inv h" and po: "pool_ok h g" by (simp_all add: graph_inv_iff)
  have "pool_ok h' g'"
    using po by (auto simp: e pool_ok_def live_def erased_store_def split: option.splits)
  then show ?thesis using erased_store_heap_inv [OF hi, of a] e by (simp add: graph_inv_iff)
next
  case False
  then have "h' = h \<and> g' = g" using d
    by (auto simp: erase_def split: option.splits if_splits)
  then show ?thesis using inv by simp
qed

lemma apply_op_graph_inv:
  assumes inv: "graph_inv c" and a: "apply_op x c = Some c'"
  shows "graph_inv c'"
proof -
  obtain h g where c: "c = (h, g)" by (cases c)
  show ?thesis
  proof (cases x)
    case (New a)
    then show ?thesis using inv a c
      by (auto simp: graph_inv_iff new_heap_inv pool_ok_def live_def split: if_splits option.splits)
  next
    case (Push p)
    then show ?thesis using inv a c push_graph_inv [of h g p]
      by (auto simp: defined_outcome_def split: prod.splits if_splits)
  next
    case (Depend s t)
    then show ?thesis using inv a c depend_graph_inv [of h g s t]
      by (auto simp: defined_outcome_def split: prod.splits if_splits)
  next
    case (Precede s t)
    then show ?thesis using inv a c depend_graph_inv [of h g t s]
      by (auto simp: defined_outcome_def precede_def split: prod.splits if_splits sum.splits)
  next
    case (Erase_depend s t)
    then show ?thesis using inv a c erase_depend_graph_inv [of h g s t]
      by (auto simp: defined_outcome_def split: prod.splits if_splits)
  next
    case (Erase_precede s t)
    then show ?thesis using inv a c erase_precede_graph_inv [of h g s t]
      by (auto simp: defined_outcome_def split: prod.splits if_splits)
  next
    case (Erase t)
    then show ?thesis using inv a c erase_graph_inv [of h g t]
      by (auto simp: defined_outcome_def split: prod.splits if_splits)
  qed
qed

lemma run_ops_graph_inv:
  "graph_inv c \<Longrightarrow> run_ops ops c = Some c' \<Longrightarrow> graph_inv c'"
  by (induction ops arbitrary: c) (auto split: option.splits dest: apply_op_graph_inv)

lemma graph_inv_initial: "graph_inv (Map.empty, new_ThreadGraph n opt)"
  by (simp add: graph_inv_def edge_symmetry_def no_duplicates_def edges_live_def pool_ok_def
      new_ThreadGraph_def)

lemma client_program_runs:
  "run_ops client_program (Map.empty, new_ThreadGraph 2 True) = Some (store_after, graph_after)"
  by (simp add: client_program_def store_after_def graph_after_def new_ThreadGraph_def
      new_INode_def push_def depend_def precede_def erase_depend_def erase_def deref_def
      executing_def defined_outcome_def CYCLE_def Let_def fun_eq_iff)

text \<open>
  Claim C6. The empty graph satisfies the invariant, and from any state that satisfies it,
  after any sequence of allocations and of calls to push, depend, precede, erase_depend,
  erase_precede and erase, each returning normally or throwing (no call running into
  undefined behaviour), the store again satisfies it: for all live nodes \<open>a\<close> and \<open>b\<close>,
  \<open>b\<close> is in the successors of \<open>a\<close> exactly when \<open>a\<close> is in the predecessors of \<open>b\<close>, no
  edge vector holds a pointer twice, and every node of the task pool is live.
\<close>

theorem edge_symmetry_invariant:
  "graph_inv (Map.empty, new_ThreadGraph n opt)
   \<and> (graph_inv c \<and> run_ops ops c = Some (h, g) \<longrightarrow>
        graph_inv (h, g) \<and> edge_symmetry h \<and> no_duplicates h
        \<and> (\<forall>p \<in> set (task_pool g). live h p))"
proof -
  have "graph_inv c \<and> run_ops ops c = Some (h, g) \<longrightarrow> graph_inv (h, g)"
    using run_ops_graph_inv by blast
  then show ?thesis
    using graph_inv_initial by (auto simp: graph_inv_def pool_ok_def)
qed

theorem edge_symmetry_invariant_witness:
  "graph_inv (Map.empty, new_ThreadGraph 2 True)
   \<and> run_ops client_program (Map.empty, new_ThreadGraph 2 True) = Some (store_after, graph_after)
   \<and> edge_symmetry store_after \<and> no_duplicates store_after
   \<and> task_pool graph_after = [Some 1, Some 2]
   \<and> live store_after (Some 1) \<and> live store_after (Some 2)"
  using edge_symmetry_invariant [where n = 2 and opt = True
      and c = "(Map.empty, new_ThreadGraph 2 True)" and ops = client_program
      and h = store_after and g = graph_after]
    client_program_runs
  by (simp add: graph_after_def)

lemma graph_inv_pair: "graph_inv (store2_linked, graph_pair)"
  by (auto simp: graph_inv_def edge_symmetry_def no_duplicates_def edges_live_def pool_ok_def
      live_def store2_linked_def graph_pair_def new_ThreadGraph_def new_INode_def
      split: if_splits)

text \<open>
  Claim C8, amended: on a graph that satisfies the invariant, \<open>erase\<close> returns false and
  changes nothing when the handle is empty (executing or not); otherwise it throws the
  runtime error and changes nothing when the graph is executing; otherwise it returns false
  and changes nothing when the node is not in the task pool; otherwise it returns true, the
  node is gone from the pool and from the store, the handle is null, and every other node
  has lost the erased node from its predecessors and from its successors.
\<close>

theorem erase_checks_in_order:
  assumes "graph_inv (h, g)"
  shows "(node t = None \<longrightarrow> erase h g t = (Inr False, h, g, t))
   \<and> (node t \<noteq> None \<and> executing g \<longrightarrow>
        is_runtime_error (fst (erase h g t)) \<and> snd (erase h g t) = (h, g, t))
   \<and> (node t \<noteq> None \<and> \<not> executing g \<and> node t \<notin> set (task_pool g) \<longrightarrow>
        erase h g t = (Inr False, h, g, t))
   \<and> (node t = Some a \<and> \<not> executing g \<and> Some a \<in> set (task_pool g) \<longrightarrow>
        erase h g t = (Inr True, erased_store a h,
                       g\<lparr>task_pool := remove1 (Some a) (task_pool g)\<rparr>, Task None)
        \<and> Some a \<notin> set (remove1 (Some a) (task_pool g))
        \<and> erased_store a h a = None
        \<and> (\<forall>b n. b \<noteq> a \<and> h b = Some n \<longrightarrow>
              erased_store a h b = Some (detach a n)
              \<and> Some a \<notin> set (predecessors (detach a n))
              \<and> Some a \<notin> set (successors (detach a n))))"
proof -
  have d: "distinct (task_pool g)" using assms by (simp add: graph_inv_def pool_ok_def)
  have 1: "node t = None \<longrightarrow> erase h g t = (Inr False, h, g, t)"
    by (simp add: erase_def)
  have 2: "node t \<noteq> None \<and> executing g \<longrightarrow>
        is_runtime_error (fst (erase h g t)) \<and> snd (erase h g t) = (h, g, t)"
    by (auto simp: erase_def)
  have 3: "node t \<noteq> None \<and> \<not> executing g \<and> node t \<notin> set (task_pool g) \<longrightarrow>
        erase h g t = (Inr False, h, g, t)"
    by (auto simp: erase_def)
  have 4: "node t = Some a \<and> \<not> executing g \<and> Some a \<in> set (task_pool g) \<longrightarrow>
        erase h g t = (Inr True, erased_store a h,
                       g\<lparr>task_pool := remove1 (Some a) (task_pool g)\<rparr>, Task None)"
    using erase_success [OF assms] by blast
  have 5: "Some a \<notin> set (remove1 (Some a) (task_pool g))"
    using d by simp
  have 6: "erased_store a h a = None" by (simp add: erased_store_def)
  have 7: "\<forall>b n. b \<noteq> a \<and> h b = Some n \<longrightarrow>
              erased_store a h b = Some (detach a n)
              \<and> Some a \<notin> set (predecessors (detach a n))
              \<and> Some a \<notin> set (successors (detach a n))"
    by (simp add: erased_store_def detach_def)
  show ?thesis using 1 2 3 4 5 6 7 by blast
qed

theorem erase_checks_in_order_witness:
  "graph_inv (store2_linked, graph_pair)
   \<and> erase store2_linked graph_pair Task_default = (Inr False, store2_linked, graph_pair, Task_default)
   \<and> is_runtime_error (fst (erase store2_linked (graph_pair\<lparr>executing_flag := True\<rparr>) (Task (Some 0))))
   \<and> erase store2_linked graph_pair (Task (Some 7)) = (Inr False, store2_linked, graph_pair, Task (Some 7))
   \<and> erase store2_linked graph_pair (Task (Some 0))
       = (Inr True, erased_store 0 store2_linked, graph_pair\<lparr>task_pool := [Some 1]\<rparr>, Task None)
   \<and> erased_store 0 store2_linked 0 = None
   \<and> erased_store 0 store2_linked 1 = Some new_INode"
proof -
  have i: "graph_inv (store2_linked, graph_pair)" by (rule graph_inv_pair)
  have j: "graph_inv (store2_linked, graph_pair\<lparr>executing_flag := True\<rparr>)"
    using i by (simp add: graph_inv_def pool_ok_def)
  show ?thesis
    using i erase_checks_in_order [OF i, where t = Task_default]
      erase_checks_in_order [OF j, where t = "Task (Some 0)"]
      erase_checks_in_order [OF i, where t = "Task (Some 7)"]
      erase_checks_in_order [OF i, where t = "Task (Some 0)" and a = 0]
    by (simp add: Task_default_def graph_pair_def new_ThreadGraph_def executing_def
        store2_linked_def detach_def new_INode_def)
qed

text \<open>
  Claim C8, as stated, fails: on an executing graph, \<open>erase\<close> of an empty handle returns
  false (the null test comes before the executing test); it does not throw RUNTIME_ERROR.
\<close>

theorem erase_empty_handle_while_executing:
  "executing graph_running
   \<and> erase store_completed graph_running Task_default
       = (Inr False, store_completed, graph_running, Task_default)
   \<and> \<not> is_runtime_error (fst (erase store_completed graph_running Task_default))"
  by (simp add: erase_def Task_default_def graph_running_def executing_def new_ThreadGraph_def)

section \<open>The trace subroutine against its specification\<close>

lemma pending_has_node:
  "trace_ready_depend k h E A = Some (Inr r) \<Longrightarrow> fst r = TracePending \<Longrightarrow> snd r \<noteq> None"
  "scan_predecessors k h A E ps exe = Some (Inr r) \<Longrightarrow> fst r = TracePending \<Longrightarrow> snd r \<noteq> None"
proof (induction k h E A and k h A E ps exe arbitrary: r and r
    rule: trace_ready_depend_scan_predecessors.induct)
  case (1 h entryNode avoids)
  then show ?case by simp
next
  case (2 k h entryNode avoids)
  then show ?case by (auto split: option.splits if_splits)
next
  case (3 k h avoids entryNode exe)
  then show ?case by (auto split: if_splits)
next
  case (4 k h avoids entryNode pre rest exe)
  show ?case
  proof (cases pre)
    case None
    then show ?thesis using 4 by simp
  next
    case (Some a)
    show ?thesis
    proof (cases "pre \<in> avoids")
      case True
      then show ?thesis using 4 Some by simp
    next
      case False
      show ?thesis
      proof (cases "h a")
        case None
        then show ?thesis using 4 Some False by simp
      next
        case (Some pn) note pn = this
        show ?thesis
          using 4 \<open>pre = Some a\<close> False pn
          by (cases "state pn") (auto split: option.splits sum.splits if_splits)
      qed
    qed
  qed
qed

lemma verdict_of_Nil:
  "verdict_of E exe [] = (if snd exe \<noteq> None then Some (Inr exe) else Some (Inr (TraceReady, E)))"
  by (simp add: verdict_of_def)

lemma verdict_of_decisive: "is_decisive f \<Longrightarrow> verdict_of E exe (f # fs) = f"
  by (simp add: verdict_of_def)

lemma verdict_of_pending:
  "f = Some (Inr r) \<Longrightarrow> fst r = TracePending \<Longrightarrow> snd r \<noteq> None \<Longrightarrow>
   verdict_of E exe (f # fs) = verdict_of E r fs"
  by (auto simp: verdict_of_def split: option.splits list.splits)

lemma verdict_of_skip:
  "f = Some (Inr r) \<Longrightarrow> fst r = TraceCompleted \<Longrightarrow>
   verdict_of E exe (f # fs) = verdict_of E exe fs"
  by (auto simp: verdict_of_def split: option.splits list.splits)

lemma scan_predecessors_findings:
  "scan_predecessors k h A E ps exe = verdict_of E exe (map (finding k h A) (examined A ps))"
proof (induction ps arbitrary: exe)
  case Nil
  then show ?case by (simp add: examined_def verdict_of_Nil)
next
  case (Cons p ps)
  show ?case
  proof (cases p)
    case None
    then show ?thesis using Cons.IH by (simp add: examined_def)
  next
    case (Some a)
    show ?thesis
    proof (cases "p \<in> A")
      case True
      then show ?thesis using Cons.IH Some by (simp add: examined_def)
    next
      case False
      then have ex: "examined A (p # ps) = p # examined A ps"
        using Some by (simp add: examined_def)
      show ?thesis
      proof (cases "h a")
        case None
        then have "finding k h A p = Some (Inl undefined_behaviour)"
          using Some by (simp add: finding_def deref_def)
        then show ?thesis using None Some False ex by (simp add: verdict_of_decisive)
      next
        case (Some pn) note pn = this
        show ?thesis
        proof (cases "state pn")
          case Ready
          then have f: "finding k h A p = trace_ready_depend k h p A"
            using pn \<open>p = Some a\<close> by (simp add: finding_def deref_def)
          show ?thesis
          proof (cases "trace_ready_depend k h p A")
            case None
            then show ?thesis using Ready pn \<open>p = Some a\<close> False ex f
              by (simp add: verdict_of_decisive)
          next
            case (Some res)
            show ?thesis
            proof (cases res)
              case (Inl err)
              then show ?thesis using Some Ready pn \<open>p = Some a\<close> False ex f
                by (simp add: verdict_of_decisive)
            next
              case (Inr r)
              show ?thesis
              proof (cases "fst r")
                case TraceReady
                then show ?thesis using Inr Some Ready pn \<open>p = Some a\<close> False ex f
                  by (simp add: verdict_of_decisive)
              next
                case TracePending
                have nn: "snd r \<noteq> None"
                  using pending_has_node(1) Some Inr TracePending by blast
                have "verdict_of E exe (finding k h A p # map (finding k h A) (examined A ps))
                      = verdict_of E r (map (finding k h A) (examined A ps))"
                  using verdict_of_pending [OF _ TracePending nn] f Some Inr by simp
                then show ?thesis
                  using Inr Some Ready pn \<open>p = Some a\<close> False ex TracePending Cons.IH by simp
              next
                case TraceCompleted
                have "verdict_of E exe (finding k h A p # map (finding k h A) (examined A ps))
                      = verdict_of E exe (map (finding k h A) (examined A ps))"
                  using verdict_of_skip [OF _ TraceCompleted] f Some Inr by simp
                then show ?thesis
                  using Inr Some Ready pn \<open>p = Some a\<close> False ex TraceCompleted Cons.IH by simp
              qed
            qed
          qed
        next
          case Executing
          then have f: "finding k h A p = Some (Inr (TracePending, p))"
            using pn \<open>p = Some a\<close> by (simp add: finding_def deref_def)
          have "verdict_of E exe (finding k h A p # map (finding k h A) (examined A ps))
                = verdict_of E (TracePending, p) (map (finding k h A) (examined A ps))"
            using verdict_of_pending [OF f] \<open>p = Some a\<close> by simp
          then show ?thesis
            using Executing pn \<open>p = Some a\<close> False ex Cons.IH by simp
        next
          case Completed
          then have f: "finding k h A p = Some (Inr (TraceCompleted, p))"
            using pn \<open>p = Some a\<close> by (simp add: finding_def deref_def)
          have "verdict_of E exe (finding k h A p # map (finding k h A) (examined A ps))
                = verdict_of E exe (map (finding k h A) (examined A ps))"
            using verdict_of_skip [OF f] by simp
          then show ?thesis
            using Completed pn \<open>p = Some a\<close> False ex Cons.IH by simp
        qed
      qed
    qed
  qed
qed

lemma trace_ready_depend_eq_spec:
  "trace_ready_depend k h E A = spec_trace_ready_depend k h E A"
proof (induction k arbitrary: E)
  case 0
  show ?case by simp
next
  case (Suc k)
  have fi: "finding k h A = (\<lambda>P. case deref h P of
                                 Inl err \<Rightarrow> Some (Inl err)
                               | Inr pn \<Rightarrow>
                                   (case state pn of
                                      Ready \<Rightarrow> spec_trace_ready_depend k h P A
                                    | Executing \<Rightarrow> Some (Inr (TracePending, P))
                                    | Completed \<Rightarrow> Some (Inr (TraceCompleted, P))))"
    by (rule ext) (simp add: finding_def Suc.IH split: sum.splits RunnableState.splits)
  show ?case
  proof (cases E)
    case None
    then show ?thesis by simp
  next
    case (Some e)
    show ?thesis
    proof (cases "h e")
      case None
      then show ?thesis using Some by simp
    next
      case (Some n) note n = this
      show ?thesis
      proof (cases "state n")
        case Ready
        have lhs: "trace_ready_depend (Suc k) h E A
              = verdict_of E (TraceReady, None) (map (finding k h A) (examined A (predecessors n)))"
          using n \<open>E = Some e\<close> Ready by (simp add: scan_predecessors_findings)
        have rhs: "spec_trace_ready_depend (Suc k) h E A
              = verdict_of E (TraceReady, None) (map (finding k h A) (examined A (predecessors n)))"
          using n \<open>E = Some e\<close> Ready by (simp add: verdict_of_def Let_def fi)
        show ?thesis by (simp only: lhs rhs)
      next
        case Executing
        then show ?thesis using n \<open>E = Some e\<close> by simp
      next
        case Completed
        then show ?thesis using n \<open>E = Some e\<close> by simp
      qed
    qed
  qed
qed


lemma scan_predecessors_returns:
  assumes "\<And>p. p \<in> set ps \<Longrightarrow> p \<noteq> None \<Longrightarrow> live h p \<and> (\<exists>r. trace_ready_depend k h p A = Some (Inr r))"
  shows "\<exists>r. scan_predecessors k h A E ps exe = Some (Inr r)"
  using assms
proof (induction ps arbitrary: exe)
  case Nil
  then show ?case by simp
next
  case (Cons p ps)
  have rest: "\<And>exe'. \<exists>r. scan_predecessors k h A E ps exe' = Some (Inr r)"
    using Cons.IH Cons.prems by simp
  show ?case
  proof (cases p)
    case None
    then show ?thesis using rest by simp
  next
    case (Some a)
    from Cons.prems [of p] Some obtain pn r where
      pn: "h a = Some pn" and r: "trace_ready_depend k h p A = Some (Inr r)"
      by (auto simp: live_def)
    show ?thesis
      using Some pn r rest by (cases "state pn") auto
  qed
qed

lemma trace_ready_depend_returns:
  assumes rank: "\<And>a n p. h a = Some n \<Longrightarrow> Some p \<in> set (predecessors n) \<Longrightarrow> rank p < rank a"
    and lv: "edges_live h"
  shows "h e \<noteq> None \<Longrightarrow> rank e \<le> k \<Longrightarrow> \<exists>r. trace_ready_depend (Suc k) h (Some e) A = Some (Inr r)"
proof (induction k arbitrary: e)
  case 0
  then obtain n where n: "h e = Some n" by auto
  have "\<And>p. p \<in> set (predecessors n) \<Longrightarrow> p = None"
  proof (rule ccontr)
    fix p assume "p \<in> set (predecessors n)" "p \<noteq> None"
    then obtain a where "Some a \<in> set (predecessors n)" by auto
    from rank [OF n this] 0 show False by simp
  qed
  then have "\<exists>r. scan_predecessors 0 h A (Some e) (predecessors n) (TraceReady, None) = Some (Inr r)"
    by (intro scan_predecessors_returns) auto
  then show ?case using n by auto
next
  case (Suc k)
  then obtain n where n: "h e = Some n" by auto
  have "\<And>p. p \<in> set (predecessors n) \<Longrightarrow> p \<noteq> None \<Longrightarrow>
          live h p \<and> (\<exists>r. trace_ready_depend (Suc k) h p A = Some (Inr r))"
  proof -
    fix p assume p: "p \<in> set (predecessors n)" "p \<noteq> None"
    then obtain a where a: "p = Some a" by auto
    have l: "live h p" using lv n p(1) by (auto simp: edges_live_def)
    then have "h a \<noteq> None" using a by (simp add: live_def)
    moreover have "rank a \<le> k" using rank [OF n] p(1) a Suc.prems(2) by fastforce
    ultimately show "live h p \<and> (\<exists>r. trace_ready_depend (Suc k) h p A = Some (Inr r))"
      using Suc.IH [of a] l a by simp
  qed
  then have "\<exists>r. scan_predecessors (Suc k) h A (Some e) (predecessors n) (TraceReady, None)
                = Some (Inr r)"
    by (intro scan_predecessors_returns) auto
  then show ?case using n by auto
qed

lemma fuel_mono_Suc:
  "trace_ready_depend k h E A = Some r \<Longrightarrow> trace_ready_depend (Suc k) h E A = Some r"
  "scan_predecessors k h A E ps exe = Some r \<Longrightarrow> scan_predecessors (Suc k) h A E ps exe = Some r"
proof (induction k h E A and k h A E ps exe arbitrary: r and r
    rule: trace_ready_depend_scan_predecessors.induct)
  case (1 h entryNode avoids)
  then show ?case by simp
next
  case (2 k h entryNode avoids)
  show ?case
  proof (cases entryNode)
    case None
    then show ?thesis using 2 by simp
  next
    case (Some e)
    show ?thesis
    proof (cases "h e")
      case None
      then show ?thesis using 2 Some by simp
    next
      case (Some n) note n = this
      show ?thesis using 2 \<open>entryNode = Some e\<close> n
        by (cases "state n") auto
    qed
  qed
next
  case (3 k h avoids entryNode exe)
  then show ?case by simp
next
  case (4 k h avoids entryNode pre rest exe)
  show ?case
  proof (cases pre)
    case None
    then show ?thesis using 4 by simp
  next
    case (Some a)
    show ?thesis
    proof (cases "pre \<in> avoids")
      case True
      then show ?thesis using 4 Some by simp
    next
      case False
      show ?thesis
      proof (cases "h a")
        case None
        then show ?thesis using 4 Some False by simp
      next
        case (Some pn) note pn = this
        show ?thesis
        proof (cases "state pn")
          case Ready
          show ?thesis
          proof (cases "trace_ready_depend k h pre avoids")
            case None
            then show ?thesis using "4.prems" \<open>pre = Some a\<close> False pn Ready
              by (simp del: trace_ready_depend.simps)
          next
            case (Some res)
            have up: "trace_ready_depend (Suc k) h pre avoids = Some res"
              using "4.IH"(3) [OF \<open>pre = Some a\<close> False pn Ready Some] .
            show ?thesis
            proof (cases res)
              case (Inl err)
              then show ?thesis
                using "4.prems" \<open>pre = Some a\<close> False pn Ready Some up
                by (auto simp del: trace_ready_depend.simps)
            next
              case (Inr br)
              show ?thesis
                using "4.IH" "4.prems" \<open>pre = Some a\<close> False pn Ready Some up Inr
                by (auto simp del: trace_ready_depend.simps split: if_splits)
            qed
          qed
        next
          case Executing
          then show ?thesis using 4 \<open>pre = Some a\<close> False pn by simp
        next
          case Completed
          then show ?thesis using 4 \<open>pre = Some a\<close> False pn by simp
        qed
      qed
    qed
  qed
qed


lemma fuel_mono:
  "trace_ready_depend k h E A = Some r \<Longrightarrow> trace_ready_depend (k + m) h E A = Some r"
  by (induction m) (auto dest: fuel_mono_Suc(1) simp del: trace_ready_depend.simps)

lemma verdict_of_all_completed:
  "\<forall>f \<in> set fs. \<exists>p. f = Some (Inr (TraceCompleted, p)) \<Longrightarrow>
   verdict_of E (TraceReady, None) fs = Some (Inr (TraceReady, E))"
proof -
  assume a: "\<forall>f \<in> set fs. \<exists>p. f = Some (Inr (TraceCompleted, p))"
  then have "find is_decisive fs = None" by (auto simp: find_None_iff)
  moreover have "filter is_pending fs = []" using a by (auto simp: filter_empty_conv)
  ultimately show ?thesis by (simp add: verdict_of_def)
qed

lemma all_completed_ready:
  assumes n: "h e = Some n" "state n = Ready"
    and c: "\<forall>p \<in> set (examined A (predecessors n)). \<exists>pn. deref h p = Inr pn \<and> state pn = Completed"
  shows "trace_ready_depend (Suc k) h (Some e) A = Some (Inr (TraceReady, Some e))"
proof -
  have "\<forall>f \<in> set (map (finding k h A) (examined A (predecessors n))).
          \<exists>p. f = Some (Inr (TraceCompleted, p))"
    using c by (auto simp: finding_def)
  from verdict_of_all_completed [OF this] show ?thesis
    using n by (simp add: scan_predecessors_findings)
qed

text \<open>
  Claim C2. At every recursion budget the source's \<open>trace_ready_depend\<close> returns exactly
  what the specification's wording prescribes (\<open>spec_trace_ready_depend\<close>): Pending with
  \<open>E\<close> when \<open>E\<close> is executing, Completed with \<open>E\<close> when it has completed, and for a ready
  \<open>E\<close> the first Ready result of the recursion over the predecessors that are neither null
  nor avoided, else the last remembered Pending result, else Ready with \<open>E\<close> (in particular
  when every examined predecessor has completed). The answer does not depend on the budget
  once there is one, and on a store whose edges point to live nodes and whose predecessor
  relation is acyclic (it decreases a rank) the call does return.
\<close>

theorem trace_ready_depend_meets_spec:
  "trace_ready_depend k h E A = spec_trace_ready_depend k h E A
   \<and> (h e = Some n \<and> state n = Executing \<longrightarrow>
        trace_ready_depend (Suc k) h (Some e) A = Some (Inr (TracePending, Some e)))
   \<and> (h e = Some n \<and> state n = Completed \<longrightarrow>
        trace_ready_depend (Suc k) h (Some e) A = Some (Inr (TraceCompleted, Some e)))
   \<and> (h e = Some n \<and> state n = Ready
        \<and> (\<forall>p \<in> set (examined A (predecessors n)). \<exists>pn. deref h p = Inr pn \<and> state pn = Completed) \<longrightarrow>
        trace_ready_depend (Suc k) h (Some e) A = Some (Inr (TraceReady, Some e)))
   \<and> (trace_ready_depend k h E A = Some r \<longrightarrow> trace_ready_depend (k + m) h E A = Some r)
   \<and> (edges_live h \<and> h e \<noteq> None
        \<and> (\<forall>a n p. h a = Some n \<and> Some p \<in> set (predecessors n) \<longrightarrow> rank p < rank a) \<longrightarrow>
        (\<exists>r. trace_ready_depend (Suc (rank e)) h (Some e) A = Some (Inr r)))"
proof -
  have 1: "trace_ready_depend k h E A = spec_trace_ready_depend k h E A"
    by (rule trace_ready_depend_eq_spec)
  have 2: "h e = Some n \<and> state n = Executing \<longrightarrow>
        trace_ready_depend (Suc k) h (Some e) A = Some (Inr (TracePending, Some e))"
    by simp
  have 3: "h e = Some n \<and> state n = Completed \<longrightarrow>
        trace_ready_depend (Suc k) h (Some e) A = Some (Inr (TraceCompleted, Some e))"
    by simp
  have 4: "h e = Some n \<and> state n = Ready
        \<and> (\<forall>p \<in> set (examined A (predecessors n)). \<exists>pn. deref h p = Inr pn \<and> state pn = Completed) \<longrightarrow>
        trace_ready_depend (Suc k) h (Some e) A = Some (Inr (TraceReady, Some e))"
    using all_completed_ready by blast
  have 5: "trace_ready_depend k h E A = Some r \<longrightarrow> trace_ready_depend (k + m) h E A = Some r"
    using fuel_mono by blast
  have 6: "edges_live h \<and> h e \<noteq> None
        \<and> (\<forall>a n p. h a = Some n \<and> Some p \<in> set (predecessors n) \<longrightarrow> rank p < rank a) \<longrightarrow>
        (\<exists>r. trace_ready_depend (Suc (rank e)) h (Some e) A = Some (Inr r))"
  proof (intro impI)
    assume a: "edges_live h \<and> h e \<noteq> None
        \<and> (\<forall>a n p. h a = Some n \<and> Some p \<in> set (predecessors n) \<longrightarrow> rank p < rank a)"
    then have r: "\<And>a n p. h a = Some n \<Longrightarrow> Some p \<in> set (predecessors n) \<Longrightarrow> rank p < rank a"
      by blast
    show "\<exists>r. trace_ready_depend (Suc (rank e)) h (Some e) A = Some (Inr r)"
    proof (rule trace_ready_depend_returns [where rank = rank])
      show "\<And>a n p. h a = Some n \<Longrightarrow> Some p \<in> set (predecessors n) \<Longrightarrow> rank p < rank a"
        using r .
      show "edges_live h" using a by blast
      show "h e \<noteq> None" using a by blast
      show "rank e \<le> rank e" by simp
    qed
  qed
  show ?thesis using 1 2 3 4 5 6 by blast
qed

lemma store_diamond_live: "edges_live store_diamond"
  by (auto simp: edges_live_def store_diamond_def live_def split: if_splits)

lemma store_diamond_rank:
  "\<forall>a n p. store_diamond a = Some n \<and> Some p \<in> set (predecessors n) \<longrightarrow> p < a"
  by (auto simp: store_diamond_def split: if_splits)

theorem trace_ready_depend_meets_spec_witness:
  "trace_ready_depend (Suc (Suc 0)) store_diamond (Some 3) {} = Some (Inr (TraceReady, Some 2))
   \<and> spec_trace_ready_depend (Suc (Suc 0)) store_diamond (Some 3) {} = Some (Inr (TraceReady, Some 2))
   \<and> trace_ready_depend (Suc 0) store_diamond (Some 1) {} = Some (Inr (TracePending, Some 1))
   \<and> trace_ready_depend (Suc 0) store_diamond (Some 0) {} = Some (Inr (TraceCompleted, Some 0))
   \<and> trace_ready_depend (Suc 0) store_diamond (Some 2) {} = Some (Inr (TraceReady, Some 2))
   \<and> trace_ready_depend (Suc (Suc 0) + 5) store_diamond (Some 3) {} = Some (Inr (TraceReady, Some 2))
   \<and> (\<exists>r. trace_ready_depend (Suc 3) store_diamond (Some 3) {Some 2} = Some (Inr r))"
proof -
  note T = trace_ready_depend_meets_spec
  have n0: "store_diamond 0 = Some \<lparr>state = Completed, predecessors = [], successors = [Some 1, Some 2]\<rparr>"
    and n1: "store_diamond 1 = Some \<lparr>state = Executing, predecessors = [Some 0], successors = [Some 3]\<rparr>"
    and n2: "store_diamond 2 = Some \<lparr>state = Ready, predecessors = [Some 0], successors = [Some 3]\<rparr>"
    and n3: "store_diamond 3 \<noteq> None"
    by (simp_all add: store_diamond_def)
  have c1: "trace_ready_depend (Suc (Suc 0)) store_diamond (Some 3) {} = Some (Inr (TraceReady, Some 2))"
    by (simp add: store_diamond_def)
  have c2: "spec_trace_ready_depend (Suc (Suc 0)) store_diamond (Some 3) {} = Some (Inr (TraceReady, Some 2))"
    using T [where k = "Suc (Suc 0)" and h = store_diamond and E = "Some 3" and A = "{}", THEN conjunct1] c1 by simp
  have c3: "trace_ready_depend (Suc 0) store_diamond (Some 1) {} = Some (Inr (TracePending, Some 1))"
    using T [where h = store_diamond and e = 1 and k = 0 and A = "{}",
        THEN conjunct2, THEN conjunct1] n1
    by simp
  have c4: "trace_ready_depend (Suc 0) store_diamond (Some 0) {} = Some (Inr (TraceCompleted, Some 0))"
    using T [where h = store_diamond and e = 0 and k = 0 and A = "{}",
        THEN conjunct2, THEN conjunct2, THEN conjunct1] n0
    by simp
  have c5: "trace_ready_depend (Suc 0) store_diamond (Some 2) {} = Some (Inr (TraceReady, Some 2))"
    using T [where h = store_diamond and e = 2 and k = 0 and A = "{}",
        THEN conjunct2, THEN conjunct2, THEN conjunct2, THEN conjunct1] n2 n0
    by (simp add: examined_def deref_def)
  have c6: "trace_ready_depend (Suc (Suc 0) + 5) store_diamond (Some 3) {} = Some (Inr (TraceReady, Some 2))"
    using T [where h = store_diamond and E = "Some 3" and k = "Suc (Suc 0)" and A = "{}" and m = 5,
        THEN conjunct2, THEN conjunct2, THEN conjunct2, THEN conjunct2, THEN conjunct1] c1
    by blast
  have c7: "\<exists>r. trace_ready_depend (Suc 3) store_diamond (Some 3) {Some 2} = Some (Inr r)"
    using T [where h = store_diamond and e = 3 and rank = "\<lambda>a. a" and A = "{Some 2}",
        THEN conjunct2, THEN conjunct2, THEN conjunct2, THEN conjunct2, THEN conjunct2]
      store_diamond_live store_diamond_rank n3
    by blast
  show ?thesis using c1 c2 c3 c4 c5 c6 c7 by blast
qed

section \<open>Dependency respect\<close>

lemma trace_sound:
  "trace_ready_depend k h E A = Some (Inr r) \<Longrightarrow>
     (fst r = TraceReady \<longrightarrow> ready_now h A (snd r)) \<and>
     (fst r = TraceCompleted \<longrightarrow> (\<exists>e. E = Some e \<and> completed_at h e))"
  "scan_predecessors k h A E ps exe = Some (Inr r) \<Longrightarrow>
   fst exe \<noteq> TraceCompleted \<Longrightarrow> (fst exe = TraceReady \<longrightarrow> snd exe = None) \<Longrightarrow>
     fst r \<noteq> TraceCompleted \<and>
     (fst r = TraceReady \<longrightarrow>
        ready_now h A (snd r) \<or>
        (snd r = E \<and> snd exe = None \<and>
         (\<forall>a. Some a \<in> set ps \<and> Some a \<notin> A \<longrightarrow> completed_at h a)))"
proof (induction k h E A and k h A E ps exe arbitrary: r and r
    rule: trace_ready_depend_scan_predecessors.induct)
  case (1 h entryNode avoids)
  then show ?case by simp
next
  case (2 k h entryNode avoids)
  show ?case
  proof (cases entryNode)
    case None
    then show ?thesis using "2.prems" by simp
  next
    case (Some e)
    show ?thesis
    proof (cases "h e")
      case None
      then show ?thesis using "2.prems" Some by simp
    next
      case (Some n) note n = this
      show ?thesis
      proof (cases "state n")
        case Ready
        have s: "scan_predecessors k h avoids entryNode (predecessors n) (TraceReady, None) = Some (Inr r)"
          using "2.prems" \<open>entryNode = Some e\<close> n Ready by simp
        have "fst r \<noteq> TraceCompleted \<and>
          (fst r = TraceReady \<longrightarrow>
            ready_now h avoids (snd r) \<or>
            (snd r = entryNode \<and> snd (TraceReady, None :: ptr) = None \<and>
             (\<forall>a. Some a \<in> set (predecessors n) \<and> Some a \<notin> avoids \<longrightarrow> completed_at h a)))"
          using "2.IH" [OF \<open>entryNode = Some e\<close> n _ _ s] Ready by simp
        then show ?thesis
          using \<open>entryNode = Some e\<close> n Ready by (auto simp: ready_now_def)
      next
        case Executing
        then show ?thesis using "2.prems" \<open>entryNode = Some e\<close> n by auto
      next
        case Completed
        then show ?thesis using "2.prems" \<open>entryNode = Some e\<close> n by (auto simp: completed_at_def)
      qed
    qed
  qed
next
  case (3 k h avoids entryNode exe)
  then show ?case by (cases "fst exe") (auto split: if_splits)
next
  case (4 k h avoids entryNode pre rest exe)
  note pr = "4.prems"
  show ?case
  proof (cases pre)
    case None
    then show ?thesis using "4.IH"(1) [OF None] pr by simp
  next
    case (Some a)
    show ?thesis
    proof (cases "pre \<in> avoids")
      case True
      then show ?thesis using "4.IH"(2) [OF Some True] pr Some by auto
    next
      case False
      show ?thesis
      proof (cases "h a")
        case None
        then show ?thesis using pr Some False by simp
      next
        case (Some pn) note pn = this
        note ctx = \<open>pre = Some a\<close> False pn
        show ?thesis
        proof (cases "state pn")
          case Ready
          show ?thesis
          proof (cases "trace_ready_depend k h pre avoids")
            case None
            then show ?thesis using pr ctx Ready by simp
          next
            case (Some res)
            show ?thesis
            proof (cases res)
              case (Inl err)
              then show ?thesis using pr ctx Ready Some by simp
            next
              case (Inr br)
              have tr: "trace_ready_depend k h pre avoids = Some (Inr br)" using Some Inr by simp
              have ihp: "(fst br = TraceReady \<longrightarrow> ready_now h avoids (snd br)) \<and>
                 (fst br = TraceCompleted \<longrightarrow> (\<exists>e. pre = Some e \<and> completed_at h e))"
                using "4.IH"(3) [OF ctx Ready tr] .
              show ?thesis
              proof (cases "fst br")
                case TraceReady
                then have "r = br" using pr(1) ctx Ready tr by simp
                then show ?thesis using ihp TraceReady by simp
              next
                case TracePending
                have nn: "snd br \<noteq> None" using pending_has_node(1) [OF tr TracePending] .
                have s: "scan_predecessors k h avoids entryNode rest br = Some (Inr r)"
                  using pr(1) ctx Ready tr TracePending by simp
                from "4.IH"(4) [OF ctx Ready Some Inr _ _ s] TracePending nn
                show ?thesis by auto
              next
                case TraceCompleted
                then have "completed_at h a" using ihp ctx by simp
                then show ?thesis using pn Ready by (simp add: completed_at_def)
              qed
            qed
          qed
        next
          case Executing
          have s: "scan_predecessors k h avoids entryNode rest (TracePending, pre) = Some (Inr r)"
            using pr(1) ctx Executing by simp
          from "4.IH"(6) [OF ctx _ Executing s] ctx Executing
          show ?thesis by auto
        next
          case Completed
          have s: "scan_predecessors k h avoids entryNode rest exe = Some (Inr r)"
            using pr(1) ctx Completed by simp
          from "4.IH"(7) [OF ctx _ _ s pr(2,3)] ctx Completed
          show ?thesis by (auto simp: completed_at_def)
        qed
      qed
    qed
  qed
qed


lemma ready_now_iff:
  "ready_now h {} N =
     (\<exists>a n. N = Some a \<and> h a = Some n \<and> state n = Ready \<and> predecessors_completed h n)"
  by (auto simp: ready_now_def predecessors_completed_def completed_at_def split: option.splits)

lemma scan_successors_sound:
  "scan_successors k h ss = Some (Inr (Some r)) \<Longrightarrow> fst r = TraceReady \<and> ready_now h {} (snd r)"
proof (induction ss)
  case Nil
  then show ?case by simp
next
  case (Cons s ss)
  show ?case
  proof (cases "deref h s")
    case (Inl e)
    then show ?thesis using Cons.prems by simp
  next
    case (Inr sn)
    show ?thesis
    proof (cases "state sn = Ready")
      case False
      then show ?thesis using Cons Inr by simp
    next
      case True
      show ?thesis
      proof (cases "trace_ready_depend k h s {}")
        case None
        then show ?thesis using Cons.prems Inr True by simp
      next
        case (Some res)
        show ?thesis
        proof (cases res)
          case (Inl e)
          then show ?thesis using Cons.prems Inr True Some by simp
        next
          case (Inr br)
          then have tr: "trace_ready_depend k h s {} = Some (Inr br)" using Some by simp
          show ?thesis
            using Cons True \<open>deref h s = Inr sn\<close> tr trace_sound(1) [OF tr]
            by (cases "fst br = TraceReady") auto
        qed
      qed
    qed
  qed
qed

lemma scan_successors_delay_sound:
  "scan_successors_delay k h ss d = Some (Inr x) \<Longrightarrow> fst d = TracePending \<Longrightarrow>
   (case x of
      Inl r \<Rightarrow> fst r = TraceReady \<and> ready_now h {} (snd r)
    | Inr d' \<Rightarrow> fst d' = TracePending)"
proof (induction ss arbitrary: d)
  case Nil
  then show ?case by auto
next
  case (Cons s ss)
  show ?case
  proof (cases "deref h s")
    case (Inl e)
    then show ?thesis using Cons.prems by simp
  next
    case (Inr sn)
    show ?thesis
    proof (cases "state sn = Ready")
      case False
      then show ?thesis using Cons Inr by simp
    next
      case True
      show ?thesis
      proof (cases "trace_ready_depend k h s {}")
        case None
        then show ?thesis using Cons.prems Inr True by simp
      next
        case (Some res)
        show ?thesis
        proof (cases res)
          case (Inl e)
          then show ?thesis using Cons.prems Inr True Some by simp
        next
          case (Inr br)
          then have tr: "trace_ready_depend k h s {} = Some (Inr br)" using Some by simp
          show ?thesis
          proof (cases "fst br")
            case TraceReady
            then show ?thesis
              using Cons.prems True \<open>deref h s = Inr sn\<close> tr trace_sound(1) [OF tr] by auto
          next
            case TracePending
            then show ?thesis
              using Cons.prems True \<open>deref h s = Inr sn\<close> tr Cons.IH [of br] by simp
          next
            case TraceCompleted
            then show ?thesis
              using Cons.prems True \<open>deref h s = Inr sn\<close> tr Cons.IH [of d] by simp
          qed
        qed
      qed
    qed
  qed
qed

lemma first_executing_Some: "first_executing h ps = Inr (Some t) \<Longrightarrow> t \<in> set ps"
  by (induction ps) (auto split: sum.splits if_splits)

lemma trace_ready_node_entry_sound:
  "trace_ready_node_entry k h g = Some (Inr r) \<Longrightarrow> fst r = TraceReady \<Longrightarrow> ready_now h {} (snd r)"
  using trace_sound(1) [of k h _ "{}" r]
  by (auto simp: trace_ready_node_entry_def split: list.splits sum.splits option.splits)

lemma trace_ready_node_sound:
  assumes t: "trace_ready_node k h g hint = Some (Inr r)" and r: "fst r = TraceReady"
  shows "ready_now h {} (snd r)"
proof (cases hint)
  case None
  then show ?thesis using t r trace_ready_node_entry_sound by (simp add: trace_ready_node_def)
next
  case (Some e)
  show ?thesis
  proof (cases "h e")
    case None
    then show ?thesis using t Some by (simp add: trace_ready_node_def)
  next
    case (Some en) note en = this
    show ?thesis
    proof (cases "state en")
      case Ready
      then show ?thesis
        using t r \<open>hint = Some e\<close> en trace_ready_node_entry_sound [of k h g]
          trace_sound(1) [of k h hint "{}"]
        by (auto simp: trace_ready_node_def split: option.splits sum.splits if_splits)
    next
      case Executing
      then show ?thesis
        using t r \<open>hint = Some e\<close> en trace_ready_node_entry_sound [of k h g]
          scan_successors_sound [of k h "successors en"]
        by (auto simp: trace_ready_node_def split: option.splits sum.splits if_splits)
    next
      case Completed
      show ?thesis
      proof (cases "scan_successors_delay k h (successors en) (TracePending, None)")
        case None
        then show ?thesis using t \<open>hint = Some e\<close> en Completed by (simp add: trace_ready_node_def)
      next
        case (Some res)
        show ?thesis
        proof (cases res)
          case (Inl err)
          then show ?thesis using t \<open>hint = Some e\<close> en Completed Some
            by (simp add: trace_ready_node_def)
        next
          case (Inr x)
          then have sc: "scan_successors_delay k h (successors en) (TracePending, None) = Some (Inr x)"
            using Some by simp
          from scan_successors_delay_sound [OF sc]
          have x: "case x of Inl r \<Rightarrow> fst r = TraceReady \<and> ready_now h {} (snd r)
                    | Inr d' \<Rightarrow> fst d' = TracePending" by simp
          show ?thesis
            using t r \<open>hint = Some e\<close> en Completed sc x trace_ready_node_entry_sound [of k h g]
            by (auto simp: trace_ready_node_def split: option.splits sum.splits if_splits)
        qed
      qed
    qed
  qed
qed

lemma process_tasks_locked_sound:
  assumes p: "process_tasks_locked k h g hint = Some (Inr (h', g', r))"
  shows "(fst r = TraceReady \<and>
           (\<exists>a n. snd r = Some a \<and> h a = Some n \<and> state n = Ready \<and> predecessors_completed h n
                  \<and> h' = h(a \<mapsto> n\<lparr>state := Executing\<rparr>)))
         \<or> (fst r \<noteq> TraceReady \<and> h' = h \<and> g' = g)"
proof (cases "fst r = TraceReady")
  case False
  then show ?thesis using p
    by (auto simp: process_tasks_locked_def split: option.splits sum.splits if_splits)
next
  case True
  have t: "trace_ready_node k h g hint = Some (Inr r)"
    using p by (auto simp: process_tasks_locked_def split: option.splits sum.splits if_splits)
  from trace_ready_node_sound [OF t True] obtain a n where
    a: "snd r = Some a" "h a = Some n" "state n = Ready" "predecessors_completed h n"
    by (auto simp: ready_now_iff)
  then have "h' = h(a \<mapsto> n\<lparr>state := Executing\<rparr>)"
    using p t True by (simp add: process_tasks_locked_def)
  then show ?thesis using True a by blast
qed

lemma run_inv_D:
  assumes "run_inv h0 tr h"
  shows "map_option predecessors (h b) = map_option predecessors (h0 b)"
    and "h b = Some n \<Longrightarrow> state n = Completed \<Longrightarrow> Finished b \<in> set tr"
    and "i < length tr \<Longrightarrow> tr ! i = Started S \<Longrightarrow> h0 S = Some sn \<Longrightarrow>
         Some P \<in> set (predecessors sn) \<Longrightarrow> \<exists>j<i. tr ! j = Finished P"
  using assms unfolding run_inv_def by blast+

lemma run_inv_I:
  assumes "\<And>b. map_option predecessors (h b) = map_option predecessors (h0 b)"
    and "\<And>b n. h b = Some n \<Longrightarrow> state n = Completed \<Longrightarrow> Finished b \<in> set tr"
    and "\<And>i S sn P. i < length tr \<Longrightarrow> tr ! i = Started S \<Longrightarrow> h0 S = Some sn \<Longrightarrow>
         Some P \<in> set (predecessors sn) \<Longrightarrow> \<exists>j<i. tr ! j = Finished P"
  shows "run_inv h0 tr h"
  unfolding run_inv_def using assms by blast

lemma run_preserves_inv:
  assumes "run c0 tr c" and "all_ready (fst c0)"
  shows "run_inv (fst c0) tr (fst c)"
  using assms
proof (induction rule: run.induct)
  case run_start
  show ?case
  proof (rule run_inv_I)
    fix b n assume "fst c0 b = Some n" "state n = Completed"
    then show "Finished b \<in> set []" using run_start by (auto simp: all_ready_def)
  qed simp_all
next
  case (run_claim tr h g k hint h' g' a)
  then have inv: "run_inv (fst c0) tr h" by simp
  note ed = run_inv_D(1) [OF inv] and cm = run_inv_D(2) [OF inv] and od = run_inv_D(3) [OF inv]
  from process_tasks_locked_sound [OF run_claim(2)] obtain n where
    n: "h a = Some n" "state n = Ready" "predecessors_completed h n"
       "h' = h(a \<mapsto> n\<lparr>state := Executing\<rparr>)" by auto
  have "run_inv (fst c0) (tr @ [Started a]) h'"
  proof (rule run_inv_I)
    fix b
    show "map_option predecessors (h' b) = map_option predecessors (fst c0 b)"
      using ed [of b] n(1,4) by (cases "b = a") simp_all
  next
    fix b m assume b: "h' b = Some m" "state m = Completed"
    then have "b \<noteq> a" using n(4) by auto
    then have "h b = Some m" using b n(4) by simp
    from cm [OF this b(2)] show "Finished b \<in> set (tr @ [Started a])" by simp
  next
    fix i S sn P
    assume i: "i < length (tr @ [Started a])" and s: "(tr @ [Started a]) ! i = Started S"
      and sn: "fst c0 S = Some sn" and p: "Some P \<in> set (predecessors sn)"
    show "\<exists>j<i. (tr @ [Started a]) ! j = Finished P"
    proof (cases "i < length tr")
      case True
      then have "tr ! i = Started S" using s by (simp add: nth_append)
      from od [OF True this sn p] obtain j where j: "j < i" "tr ! j = Finished P" by blast
      then have "(tr @ [Started a]) ! j = Finished P" using True by (simp add: nth_append)
      then show ?thesis using j(1) by blast
    next
      case False
      then have il: "i = length tr" using i by simp
      then have S: "S = a" using s by simp
      have "predecessors n = predecessors sn"
        using ed [of a] n(1) sn S by simp
      then have "Some P \<in> set (predecessors n)" using p by simp
      then obtain pn where pn: "h P = Some pn" "state pn = Completed"
        using n(3) unfolding predecessors_completed_def by blast
      from cm [OF pn] obtain j where j: "j < length tr" "tr ! j = Finished P"
        unfolding in_set_conv_nth by blast
      then have "(tr @ [Started a]) ! j = Finished P" by (simp add: nth_append)
      then show ?thesis using j(1) il by blast
    qed
  qed
  then show ?case by (simp only: fst_conv)
next
  case (run_idle tr h g k hint h' g' v p)
  from process_tasks_locked_sound [OF run_idle(2)] run_idle(3) have "h' = h" by auto
  then show ?case using run_idle by simp
next
  case (run_complete tr h g a n)
  then have inv: "run_inv (fst c0) tr h" by simp
  note ed = run_inv_D(1) [OF inv] and cm = run_inv_D(2) [OF inv] and od = run_inv_D(3) [OF inv]
  have "run_inv (fst c0) (tr @ [Finished a]) (h(a \<mapsto> n\<lparr>state := Completed\<rparr>))"
  proof (rule run_inv_I)
    fix b
    show "map_option predecessors ((h(a \<mapsto> n\<lparr>state := Completed\<rparr>)) b)
             = map_option predecessors (fst c0 b)"
      using ed [of b] run_complete(4) by (cases "b = a") simp_all
  next
    fix b m assume b: "(h(a \<mapsto> n\<lparr>state := Completed\<rparr>)) b = Some m" "state m = Completed"
    show "Finished b \<in> set (tr @ [Finished a])"
    proof (cases "b = a")
      case True then show ?thesis by simp
    next
      case False
      then have "h b = Some m" using b by simp
      from cm [OF this b(2)] show ?thesis by simp
    qed
  next
    fix i S sn P
    assume i: "i < length (tr @ [Finished a])" and s: "(tr @ [Finished a]) ! i = Started S"
      and sn: "fst c0 S = Some sn" and p: "Some P \<in> set (predecessors sn)"
    have il: "i < length tr"
    proof (rule ccontr)
      assume "\<not> i < length tr"
      then have "i = length tr" using i by simp
      then show False using s by simp
    qed
    then have "tr ! i = Started S" using s by (simp add: nth_append)
    from od [OF il this sn p] obtain j where j: "j < i" "tr ! j = Finished P" by blast
    then have "(tr @ [Finished a]) ! j = Finished P" using il by (simp add: nth_append)
    then show "\<exists>j<i. (tr @ [Finished a]) ! j = Finished P" using j(1) by blast
  qed
  then show ?case by (simp only: fst_conv)
qed


text \<open>
  Claim C1. The locked block of a worker is the only step of a run that marks a node
  executing, and it does so only for a node that the trace returned with verdict Ready: at
  that moment the node is live and Ready and every predecessor it points to is live and
  Completed; with any other verdict the store is left as it is. Consequently, in every run
  that starts with all nodes Ready, for every edge \<open>P \<rightarrow> S\<close> of the graph each start of
  \<open>S\<close> in the trace of the run comes after a finish of \<open>P\<close>.
\<close>

theorem dependency_respect:
  "(process_tasks_locked k h g hint = Some (Inr (h', g', r)) \<longrightarrow>
      (fst r = TraceReady \<and>
         (\<exists>a n. snd r = Some a \<and> h a = Some n \<and> state n = Ready \<and> predecessors_completed h n
                \<and> h' = h(a \<mapsto> n\<lparr>state := Executing\<rparr>)))
      \<or> (fst r \<noteq> TraceReady \<and> h' = h \<and> g' = g))
   \<and> (run (hs, gs) tr (he, ge) \<and> all_ready hs \<longrightarrow>
        (\<forall>i S sn P. i < length tr \<and> tr ! i = Started S \<and> hs S = Some sn
            \<and> Some P \<in> set (predecessors sn) \<longrightarrow> (\<exists>j<i. tr ! j = Finished P)))"
proof -
  have a: "process_tasks_locked k h g hint = Some (Inr (h', g', r)) \<longrightarrow>
      (fst r = TraceReady \<and>
         (\<exists>a n. snd r = Some a \<and> h a = Some n \<and> state n = Ready \<and> predecessors_completed h n
                \<and> h' = h(a \<mapsto> n\<lparr>state := Executing\<rparr>)))
      \<or> (fst r \<noteq> TraceReady \<and> h' = h \<and> g' = g)"
    using process_tasks_locked_sound by blast
  have b: "run (hs, gs) tr (he, ge) \<and> all_ready hs \<longrightarrow>
        (\<forall>i S sn P. i < length tr \<and> tr ! i = Started S \<and> hs S = Some sn
            \<and> Some P \<in> set (predecessors sn) \<longrightarrow> (\<exists>j<i. tr ! j = Finished P))"
  proof (intro impI)
    assume r: "run (hs, gs) tr (he, ge) \<and> all_ready hs"
    then have "run_inv hs tr he" using run_preserves_inv [of "(hs, gs)" tr "(he, ge)"] by simp
    then show "\<forall>i S sn P. i < length tr \<and> tr ! i = Started S \<and> hs S = Some sn
            \<and> Some P \<in> set (predecessors sn) \<longrightarrow> (\<exists>j<i. tr ! j = Finished P)"
      using run_inv_D(3) by blast
  qed
  show ?thesis using a b by blast
qed

lemma run_step1:
  "process_tasks_locked (Suc (Suc 0)) store2_linked graph_started None
     = Some (Inr (store_run1, graph_started\<lparr>ready_tasks_cache := [Some 0]\<rparr>, (TraceReady, Some 1)))"
  by (simp add: process_tasks_locked_def trace_ready_node_def trace_ready_node_entry_def
      store2_linked_def graph_started_def store_run1_def new_ThreadGraph_def new_INode_def
      remove_ready_cache_def)

lemma run_step2: "store_run1(1 \<mapsto> \<lparr>state = Executing, predecessors = [], successors = [Some 0]\<rparr>\<lparr>state := Completed\<rparr>) = store_run2"
  by (simp add: store_run1_def store_run2_def)

lemma run_step3:
  "process_tasks_locked (Suc 0) store_run2 (graph_started\<lparr>ready_tasks_cache := [Some 0]\<rparr>) (Some 1)
     = Some (Inr (store_run3, graph_started\<lparr>ready_tasks_cache := []\<rparr>, (TraceReady, Some 0)))"
  by (simp add: process_tasks_locked_def trace_ready_node_def trace_ready_node_entry_def
      store_run2_def store_run3_def graph_started_def new_ThreadGraph_def deref_def
      remove_ready_cache_def fun_upd_twist)

lemma run_example:
  "run (store2_linked, graph_started) [Started 1, Finished 1, Started 0]
     (store_run3, graph_started\<lparr>ready_tasks_cache := []\<rparr>)"
proof -
  let ?c0 = "(store2_linked, graph_started)"
  have r0: "run ?c0 [] (store2_linked, graph_started)" by (rule run_start)
  have r1: "run ?c0 ([] @ [Started 1]) (store_run1, graph_started\<lparr>ready_tasks_cache := [Some 0]\<rparr>)"
    by (rule run_claim [OF r0 run_step1])
  have n1: "store_run1 1 = Some \<lparr>state = Executing, predecessors = [], successors = [Some 0]\<rparr>"
    by (simp add: store_run1_def)
  have "run ?c0 (([] @ [Started 1]) @ [Finished 1])
          (store_run1(1 \<mapsto> \<lparr>state = Executing, predecessors = [], successors = [Some 0]\<rparr>\<lparr>state := Completed\<rparr>),
           graph_started\<lparr>ready_tasks_cache := [Some 0]\<rparr>)"
    by (rule run_complete [OF r1 _ _ n1]) simp_all
  then have r2: "run ?c0 [Started 1, Finished 1] (store_run2, graph_started\<lparr>ready_tasks_cache := [Some 0]\<rparr>)"
    by (simp only: run_step2 append_Nil append_Cons)
  have "run ?c0 ([Started 1, Finished 1] @ [Started 0]) (store_run3, graph_started\<lparr>ready_tasks_cache := []\<rparr>)"
    by (rule run_claim [OF r2 run_step3])
  then show ?thesis by simp
qed

theorem dependency_respect_witness:
  "process_tasks_locked (Suc (Suc 0)) store2_linked graph_started None
     = Some (Inr (store_run1, graph_started\<lparr>ready_tasks_cache := [Some 0]\<rparr>, (TraceReady, Some 1)))
   \<and> predecessors_completed store2_linked \<lparr>state = Ready, predecessors = [], successors = [Some 0]\<rparr>
   \<and> run (store2_linked, graph_started) [Started 1, Finished 1, Started 0]
        (store_run3, graph_started\<lparr>ready_tasks_cache := []\<rparr>)
   \<and> all_ready store2_linked
   \<and> (\<exists>j<2. [Started 1, Finished 1, Started 0] ! j = Finished 1)"
proof -
  note T = dependency_respect
  have ar: "all_ready store2_linked"
    by (auto simp: all_ready_def store2_linked_def new_INode_def split: if_splits)
  have n0: "store2_linked 0 = Some \<lparr>state = Ready, predecessors = [Some 1], successors = []\<rparr>"
    and n1: "store2_linked 1 = Some \<lparr>state = Ready, predecessors = [], successors = [Some 0]\<rparr>"
    by (simp_all add: store2_linked_def new_INode_def)
  have "\<exists>a n. Some 1 = Some a \<and> store2_linked a = Some n \<and> state n = Ready
          \<and> predecessors_completed store2_linked n"
    using T [where k = "Suc (Suc 0)" and h = store2_linked and g = graph_started and hint = None
        and h' = store_run1 and g' = "graph_started\<lparr>ready_tasks_cache := [Some 0]\<rparr>"
        and r = "(TraceReady, Some 1)", THEN conjunct1] run_step1
    by auto
  then have pc: "predecessors_completed store2_linked
                   \<lparr>state = Ready, predecessors = [], successors = [Some 0]\<rparr>"
    using n1 by auto
  have all: "\<forall>i S sn P. i < length [Started 1, Finished 1, Started 0]
            \<and> [Started 1, Finished 1, Started 0] ! i = Started S \<and> store2_linked S = Some sn
            \<and> Some P \<in> set (predecessors sn)
            \<longrightarrow> (\<exists>j<i. [Started 1, Finished 1, Started 0] ! j = Finished P)"
    using T [where hs = store2_linked and gs = graph_started
        and tr = "[Started 1, Finished 1, Started 0]" and he = store_run3
        and ge = "graph_started\<lparr>ready_tasks_cache := []\<rparr>", THEN conjunct2]
      run_example ar
    by blast
  have pre: "2 < length [Started 1, Finished 1, Started (0::nat)]
      \<and> [Started 1, Finished 1, Started 0] ! 2 = Started 0
      \<and> store2_linked 0 = Some \<lparr>state = Ready, predecessors = [Some 1], successors = []\<rparr>
      \<and> Some 1 \<in> set (predecessors \<lparr>state = Ready, predecessors = [Some 1], successors = []\<rparr>)"
    using n0 by simp
  have ord: "\<exists>j<2. [Started 1, Finished 1, Started 0] ! j = Finished 1"
    using all pre by blast
  show ?thesis using run_step1 pc run_example ar ord by blast
qed

section \<open>Accessors on an empty handle\<close>

text \<open>
  Claim C10. On an empty handle, \<open>state\<close>, \<open>predecessors_size\<close> and \<open>successors_size\<close>
  dereference the null pointer (their outcome is the undefined-behaviour branch), whereas
  \<open>reset_state\<close> leaves the store as it is and the four iterator accessors return the
  value-initialised iterator. The default-constructed handle is empty, and so is the handle
  that a successful \<open>erase\<close> leaves behind.
\<close>

theorem empty_handle_accessors:
  assumes "Task_empty t"
  shows "Task_state h t = Inl undefined_behaviour
       \<and> predecessors_size h t = Inl undefined_behaviour
       \<and> successors_size h t = Inl undefined_behaviour
       \<and> reset_state t h = Inr h
       \<and> begin_predecessors h t = Inr Singular
       \<and> end_predecessors h t = Inr Singular
       \<and> begin_successors h t = Inr Singular
       \<and> end_successors h t = Inr Singular"
  using assms
  by (simp add: Task_empty_def Task_state_def predecessors_size_def successors_size_def
      reset_state_def begin_predecessors_def end_predecessors_def begin_successors_def
      end_successors_def deref_def)

theorem empty_handle_accessors_witness:
  "Task_empty Task_default
   \<and> Task_state store2 Task_default = Inl undefined_behaviour
   \<and> predecessors_size store2 Task_default = Inl undefined_behaviour
   \<and> successors_size store2 Task_default = Inl undefined_behaviour
   \<and> reset_state Task_default store2 = Inr store2
   \<and> erase store2_linked graph_pair (Task (Some 0))
       = (Inr True, erased_store 0 store2_linked, graph_pair\<lparr>task_pool := [Some 1]\<rparr>, Task None)
   \<and> Task_state (erased_store 0 store2_linked) (Task None) = Inl undefined_behaviour
   \<and> begin_predecessors (erased_store 0 store2_linked) (Task None) = Inr Singular"
proof -
  have e: "Task_empty Task_default" by (simp add: Task_empty_def Task_default_def)
  have n: "Task_empty (Task None)" by (simp add: Task_empty_def)
  have x: "erase store2_linked graph_pair (Task (Some 0))
       = (Inr True, erased_store 0 store2_linked, graph_pair\<lparr>task_pool := [Some 1]\<rparr>, Task None)"
    using erase_success [OF graph_inv_pair, of "Task (Some 0)" 0]
    by (simp add: graph_pair_def executing_def new_ThreadGraph_def)
  show ?thesis
    using e x empty_handle_accessors [OF e, of store2]
      empty_handle_accessors [OF n, of "erased_store 0 store2_linked"]
    by simp
qed

end
